theory Spec2Isabelle
  imports Main "HOL-Library.Sublist"
begin

section \<open>JavaScript strings and arrays, as main.ts uses them\<close>

text \<open>
  Strings are character lists, a character being a code unit below 256 (the Latin-1 range
  of the language's strings). The plugin only uses a handful of the string and array
  methods of the language; each is written out here with the behaviour the language
  standard gives it, so that the handlers below can be read next to \<^verbatim>\<open>src/main.ts\<close>.
\<close>

type_synonym path = string

text \<open>\<^verbatim>\<open>s.indexOf(pat)\<close>: the offset of the leftmost occurrence, \<open>None\<close> for -1.\<close>

fun indexOf :: "string \<Rightarrow> string \<Rightarrow> nat option" where
  "indexOf pat [] = (if pat = [] then Some 0 else None)"
| "indexOf pat (c # cs) =
     (if prefix pat (c # cs) then Some 0 else map_option Suc (indexOf pat cs))"

text \<open>\<^verbatim>\<open>s.includes(pat)\<close> on strings.\<close>

definition js_includes :: "string \<Rightarrow> string \<Rightarrow> bool" where
  "js_includes s pat = (indexOf pat s \<noteq> None)"

text \<open>
  The replacement text of \<^verbatim>\<open>String.prototype.replace\<close> when the pattern is a string
  (no capture groups): \<^verbatim>\<open>$$\<close> is a dollar sign, \<^verbatim>\<open>$&\<close> the matched text, a dollar followed
  by a backquote the text before the match, a dollar followed by an apostrophe the text
  after it; every other character, a dollar before anything else included, stands for
  itself.
\<close>

fun getSubstitution :: "string \<Rightarrow> string \<Rightarrow> nat \<Rightarrow> string \<Rightarrow> string" where
  "getSubstitution matched str pos [] = []"
| "getSubstitution matched str pos [c] = [c]"
| "getSubstitution matched str pos (c # d # rest) =
     (if c = CHR ''$'' then
        (if d = CHR ''$'' then CHR ''$'' # getSubstitution matched str pos rest
         else if d = CHR ''&'' then matched @ getSubstitution matched str pos rest
         else if d = CHR 0x60 then take pos str @ getSubstitution matched str pos rest
         else if d = CHR 0x27 then
           drop (pos + length matched) str @ getSubstitution matched str pos rest
         else c # getSubstitution matched str pos (d # rest))
      else c # getSubstitution matched str pos (d # rest))"

text \<open>
  \<^verbatim>\<open>s.replace(pat, rep)\<close> with a string pattern: only the leftmost occurrence of the
  pattern is replaced; a string without the pattern is returned as it is.
\<close>

definition js_replace :: "string \<Rightarrow> string \<Rightarrow> string \<Rightarrow> string" where
  "js_replace pat rep s =
     (case indexOf pat s of
        None \<Rightarrow> s
      | Some pos \<Rightarrow> take pos s @ getSubstitution pat s pos rep @ drop (pos + length pat) s)"

text \<open>\<^verbatim>\<open>s.split(sep)\<close> for a one-character separator; the empty string splits to \<open>[[]]\<close>.\<close>

fun js_split :: "char \<Rightarrow> string \<Rightarrow> string list" where
  "js_split sep [] = [[]]"
| "js_split sep (c # cs) =
     (if c = sep then [] # js_split sep cs
      else (case js_split sep cs of [] \<Rightarrow> [[c]] | w # ws \<Rightarrow> (c # w) # ws))"

text \<open>\<^verbatim>\<open>xs.join(sep)\<close>.\<close>

fun js_join :: "string \<Rightarrow> string list \<Rightarrow> string" where
  "js_join sep [] = []"
| "js_join sep [x] = x"
| "js_join sep (x # y # ys) = x @ sep @ js_join sep (y # ys)"

text \<open>
  The character class \<^verbatim>\<open>\s\<close>, on the characters a \<^typ>\<open>char\<close> can hold: space, tab, line
  feed, vertical tab, form feed, carriage return and the no-break space.
\<close>

definition is_space :: "char \<Rightarrow> bool" where
  "is_space c = (c = CHR 0x20 \<or> c = CHR 0x09 \<or> c = CHR 0x0A \<or> c = CHR 0x0B \<or>
                 c = CHR 0x0C \<or> c = CHR 0x0D \<or> c = CHR 0xA0)"

text \<open>\<^verbatim>\<open>s.replace(/\s/g, "")\<close>.\<close>

definition remove_spaces :: "string \<Rightarrow> string" where
  "remove_spaces s = filter (\<lambda>c. \<not> is_space c) s"

text \<open>
  \<^verbatim>\<open>s.toLowerCase()\<close>. Among the code units below 256 the upper-case letters are \<^verbatim>\<open>A\<close> to
  \<^verbatim>\<open>Z\<close> (65 to 90) and the accented capitals 192 to 222 without the multiplication sign
  215; each has its lower-case letter 32 further on, and every other character is its own
  lower case.
\<close>

definition lower_char :: "char \<Rightarrow> char" where
  "lower_char c =
     (let n = (of_char c :: nat) in
      if (65 \<le> n \<and> n \<le> 90) \<or> (192 \<le> n \<and> n \<le> 222 \<and> n \<noteq> 215)
      then char_of (n + 32) else c)"

definition toLowerCase :: "string \<Rightarrow> string" where
  "toLowerCase s = map lower_char s"

text \<open>
  \<^verbatim>\<open>xs.splice(start, deleteCount, ...items)\<close>, as the array it leaves behind: a negative
  start counts from the end, a start beyond the end is the end, and the delete count is
  clamped to between zero and what is left after the start.
\<close>

definition js_splice :: "'a list \<Rightarrow> int \<Rightarrow> int \<Rightarrow> 'a list \<Rightarrow> 'a list" where
  "js_splice xs start deleteCount items =
     (let len = int (length xs);
          actualStart = (if start < 0 then max (len + start) 0 else min start len);
          actualDeleteCount = min (max deleteCount 0) (len - actualStart)
      in take (nat actualStart) xs @ items @ drop (nat (actualStart + actualDeleteCount)) xs)"

text \<open>
  \<^verbatim>\<open>xs.remove(target)\<close> is the host application's extension of arrays (declared in its
  API, not part of this repository): it takes the target out of the array. On an array
  without duplicates, removing one occurrence and removing all of them are the same.
\<close>

definition array_remove :: "'a \<Rightarrow> 'a list \<Rightarrow> 'a list" where
  "array_remove x xs = removeAll x xs"

text \<open>
  Numbers are doubles. What \<^verbatim>\<open>onload\<close> computes is either NaN, or an integer of magnitude
  at most \<open>2 ^ 53\<close>, where doubles are exact, or a number of larger magnitude, where doubles
  round: of such a number only the sign is kept (\<open>True\<close> for a negative one), and nothing
  is said about its value.
\<close>

datatype js_number = NaN | Num int | Big bool

definition js_int :: "int \<Rightarrow> js_number" where
  "js_int n = (if abs n \<le> 2 ^ 53 then Num n else Big (n < 0))"

text \<open>\<^verbatim>\<open>x * 1000\<close>.\<close>

definition times_1000 :: "js_number \<Rightarrow> js_number" where
  "times_1000 x = (case x of NaN \<Rightarrow> NaN | Num n \<Rightarrow> js_int (n * 1000) | Big neg \<Rightarrow> Big neg)"

text \<open>The value of a digit: \<^verbatim>\<open>0\<close> to \<^verbatim>\<open>9\<close>, then the letters in either case from ten on.\<close>

definition digit_of :: "char \<Rightarrow> nat option" where
  "digit_of c =
     (let n = (of_char c :: nat) in
      if 48 \<le> n \<and> n \<le> 57 then Some (n - 48)
      else if 97 \<le> n \<and> n \<le> 122 then Some (n - 87)
      else if 65 \<le> n \<and> n \<le> 90 then Some (n - 55)
      else None)"

definition is_digit_in :: "nat \<Rightarrow> char \<Rightarrow> bool" where
  "is_digit_in radix c = (case digit_of c of None \<Rightarrow> False | Some d \<Rightarrow> d < radix)"

definition digits_value :: "nat \<Rightarrow> string \<Rightarrow> int" where
  "digits_value radix ds =
     foldl (\<lambda>a c. int radix * a + (case digit_of c of None \<Rightarrow> 0 | Some d \<Rightarrow> int d)) 0 ds"

text \<open>
  \<^verbatim>\<open>parseInt(s, radix)\<close>, with \<open>None\<close> for a call without a radix: leading white space is
  skipped and a sign is read; without a radix (or with radix 16) a prefix \<^verbatim>\<open>0x\<close> or \<^verbatim>\<open>0X\<close>
  is skipped and makes the radix 16, otherwise the radix is the one given, or 10; then
  the longest run of digits of that radix is read. No digit, or a radix outside 2 to 36,
  gives NaN.
\<close>

definition js_parseInt :: "nat option \<Rightarrow> string \<Rightarrow> js_number" where
  "js_parseInt radix s =
     (let t = dropWhile is_space s;
          neg = (case t of [] \<Rightarrow> False | c # _ \<Rightarrow> c = CHR ''-'');
          u = (case t of [] \<Rightarrow> [] | c # r \<Rightarrow> if c = CHR ''-'' \<or> c = CHR ''+'' then r else t);
          stripPrefix = (radix = None \<or> radix = Some 16);
          hex = (stripPrefix \<and> (prefix ''0x'' u \<or> prefix ''0X'' u));
          R = (if hex then 16 else (case radix of None \<Rightarrow> 10 | Some r \<Rightarrow> r));
          v = (if hex then drop 2 u else u);
          ds = takeWhile (is_digit_in R) v
      in if R < 2 \<or> 36 < R then NaN
         else if ds = [] then NaN
         else js_int (if neg then - digits_value R ds else digits_value R ds))"

section \<open>The data of the plugin and of its host\<close>

text \<open>A file of the vault (\<^verbatim>\<open>TFile\<close>): the fields the plugin reads.\<close>

record TFile =
  path :: path
  basename :: string
  parent_path :: path
  ctime :: int

text \<open>What the delete and rename events deliver (\<^verbatim>\<open>TAbstractFile\<close>).\<close>

datatype TAbstractFile = File TFile | Folder path

text \<open>A heading of the metadata cache: its text and the lines where it starts and ends.\<close>

record HeadingCache =
  h_heading :: string
  h_start_line :: nat
  h_end_line :: nat

text \<open>
  The cached metadata of a file: its headings (absent when the file has none) and what
  \<^verbatim>\<open>getAllTags\<close> returns for it.
\<close>

record CachedMetadata =
  c_headings :: "HeadingCache list option"
  c_tags :: "string list"

text \<open>
  Arrays are objects: \<^verbatim>\<open>settings.trackedFiles\<close> holds a reference into a store of arrays,
  so that a local variable and the settings can name the same array, or different ones.
\<close>

type_synonym ref = nat

record ListModifiedSettings =
  trackedFiles :: ref
  lastTrackedDate :: string
  heading :: string
  outputFormat :: string
  tags :: string
  excludedFolders :: string
  ignoredNameContains :: string
  automaticallyCreateDailyNote :: bool
  hasBeenBackedUp :: bool
  writeInterval :: string

record plugin =
  settings :: ListModifiedSettings
  arrays :: "ref \<Rightarrow> string list"
  next_ref :: ref

text \<open>The tracked files: the array the settings refer to.\<close>

definition tracked :: "plugin \<Rightarrow> string list" where
  "tracked p = arrays p (trackedFiles (settings p))"

text \<open>Every reference in use lies below the next free one.\<close>

definition wf_plugin :: "plugin \<Rightarrow> bool" where
  "wf_plugin p = (trackedFiles (settings p) < next_ref p)"

text \<open>The array literal \<^verbatim>\<open>[]\<close>: a new, empty array.\<close>

definition new_array :: "plugin \<Rightarrow> ref \<times> plugin" where
  "new_array p =
     (next_ref p, p\<lparr>arrays := (arrays p)(next_ref p := []), next_ref := Suc (next_ref p)\<rparr>)"

text \<open>Exceptions: a property read on null, what the daily-notes library throws, a failed schema.\<close>

datatype error = TypeError | DailyNotesError string | ZodError

datatype outcome = Done | Threw error

text \<open>
  What a handler asks of the host, in the order of the calls: a notice, the settings saved
  (with the tracked files as they are then), a file copied, the daily note created, a
  file's text replaced, and what \<^verbatim>\<open>onload\<close> registers.
\<close>

datatype effect =
    Notice string
  | SaveData ListModifiedSettings "string list"
  | Copy path path
  | CreateDailyNote path
  | Modify path string
  | RegisterInterval js_number
  | RegisterEvent string

text \<open>
  The host, as one handler run sees it: today's date, the lookup of today's daily note
  (\<open>Inl\<close> when the daily-notes library throws), the note its creation returns, the
  daily-note folder and today's date in the daily-note format, the files by path, the
  metadata cache, the text of a file, link generation and date formatting.
\<close>

record env =
  currentDate :: string
  dailyNoteLookup :: "string + TFile option"
  createdDailyNote :: TFile
  dailyFolder :: string
  dailyFormatted :: string
  getAbstractFileByPath :: "path \<Rightarrow> TFile option"
  getFileCache :: "path \<Rightarrow> CachedMetadata option"
  vault_read :: "path \<Rightarrow> string"
  generateMarkdownLink :: "TFile \<Rightarrow> path \<Rightarrow> string"
  formatDate :: "int \<Rightarrow> string"

section \<open>The filters\<close>

text \<open>\<^verbatim>\<open>noteTitleContainsIgnoredText\<close>.\<close>

definition noteTitleContainsIgnoredText :: "ListModifiedSettings \<Rightarrow> string \<Rightarrow> bool" where
  "noteTitleContainsIgnoredText s noteTitle =
     list_ex (\<lambda>ignoredText. js_includes (toLowerCase noteTitle) (toLowerCase ignoredText))
       (js_split CHR '','' (remove_spaces (ignoredNameContains s)))"

text \<open>\<^verbatim>\<open>cacheContainsIgnoredTag\<close>.\<close>

definition cacheContainsIgnoredTag :: "ListModifiedSettings \<Rightarrow> CachedMetadata \<Rightarrow> bool" where
  "cacheContainsIgnoredTag s cache =
     list_ex (\<lambda>ignoredTag. ignoredTag \<in> set (c_tags cache))
       (js_split CHR '','' (remove_spaces (tags s)))"

text \<open>
  The regular expression \<^verbatim>\<open>/\s*, | \s*,/\<close> at the start of a string: the length of its
  match there. The first alternative is white space, a comma and a space; the second a
  space, white space and a comma.
\<close>

definition match_separator :: "string \<Rightarrow> nat option" where
  "match_separator s =
     (let ws = takeWhile is_space s; rest = dropWhile is_space s in
      if prefix '', '' rest then Some (length ws + 2)
      else (case s of
              [] \<Rightarrow> None
            | c # cs \<Rightarrow>
                if c = CHR '' '' \<and> prefix '','' (dropWhile is_space cs)
                then Some (length (takeWhile is_space cs) + 2)
                else None))"

text \<open>\<^verbatim>\<open>s.replace(/\s*, | \s*,/, ",")\<close>: the leftmost match only (the pattern is not global).\<close>

fun replace_separator :: "string \<Rightarrow> string" where
  "replace_separator [] = []"
| "replace_separator (c # cs) =
     (case match_separator (c # cs) of
        Some n \<Rightarrow> CHR '','' # drop n (c # cs)
      | None \<Rightarrow> c # replace_separator cs)"

text \<open>\<^verbatim>\<open>item.replace(/^\/|\/$/g, "")\<close>: one leading and one trailing slash go.\<close>

definition strip_slashes :: "string \<Rightarrow> string" where
  "strip_slashes item =
     (let a = (case item of [] \<Rightarrow> [] | c # cs \<Rightarrow> if c = CHR ''/'' then cs else item)
      in if a \<noteq> [] \<and> last a = CHR ''/'' then butlast a else a)"

text \<open>
  \<^verbatim>\<open>pathIsExcluded\<close>. The parent folder is read through the vault; a path the vault does
  not know makes the property read fail.
\<close>

definition pathIsExcluded :: "env \<Rightarrow> ListModifiedSettings \<Rightarrow> path \<Rightarrow> error + bool" where
  "pathIsExcluded e s p =
     (if excludedFolders s = [] then Inr False
      else
        (let excludedFolderPaths =
               map strip_slashes (js_split CHR '','' (replace_separator (excludedFolders s)))
         in case getAbstractFileByPath e p of
              None \<Rightarrow> Inl TypeError
            | Some f \<Rightarrow>
                Inr (list_ex (\<lambda>excludedFolder. prefix excludedFolder (parent_path f))
                       excludedFolderPaths)))"

section \<open>Rendering one tracked path\<close>

text \<open>
  \<^verbatim>\<open>getFormattedOutput\<close>. The file is looked up by its path, and the four replacements are
  chained on the template in the order link, name, tags, creation date. The lookup of
  today's daily note inside the function is taken to give the note that is being written,
  whose path is the argument \<open>dn\<close>. A path without a file gives null, and reading a property
  of it throws.
\<close>

definition getFormattedOutput :: "env \<Rightarrow> ListModifiedSettings \<Rightarrow> path \<Rightarrow> path \<Rightarrow> error + string" where
  "getFormattedOutput e s dn p =
     (case getAbstractFileByPath e p of
        None \<Rightarrow> Inl TypeError
      | Some file \<Rightarrow>
          (case getFileCache e (path file) of
             None \<Rightarrow> Inl TypeError
           | Some cache \<Rightarrow>
               Inr (js_replace ''[[ctime]]'' (formatDate e (ctime file))
                     (js_replace ''[[tags]]''
                        (js_join '', '' (map (\<lambda>tag. CHR 0x5C # tag) (c_tags cache)))
                     (js_replace ''[[name]]'' (basename file)
                     (js_replace ''[[link]]'' (generateMarkdownLink e file dn)
                        (outputFormat s)))))))"

text \<open>
  \<^verbatim>\<open>trackedFiles.map((path) => this.getFormattedOutput(path))\<close>: in order, and an exception
  in one call ends the map.
\<close>

fun render_all :: "env \<Rightarrow> ListModifiedSettings \<Rightarrow> path \<Rightarrow> path list \<Rightarrow> error + string list" where
  "render_all e s dn [] = Inr []"
| "render_all e s dn (p # ps) =
     (case getFormattedOutput e s dn p of
        Inl err \<Rightarrow> Inl err
      | Inr line \<Rightarrow>
          (case render_all e s dn ps of
             Inl err \<Rightarrow> Inl err
           | Inr lines \<Rightarrow> Inr (line # lines)))"

section \<open>Writing the list into the daily note\<close>

text \<open>
  The loop over the headings of \<^verbatim>\<open>updateTrackedFiles\<close>: the first heading whose text is the
  configured one, with the heading after it when there is one.
\<close>

fun findHeading :: "string \<Rightarrow> HeadingCache list \<Rightarrow> (HeadingCache \<times> HeadingCache option) option" where
  "findHeading h [] = None"
| "findHeading h (x # xs) =
     (if h_heading x = h
      then Some (x, case xs of [] \<Rightarrow> None | y # _ \<Rightarrow> Some y)
      else findHeading h xs)"

text \<open>The two \<^verbatim>\<open>content.splice\<close> calls of the loop body.\<close>

definition spliceEntries ::
    "string list \<Rightarrow> HeadingCache \<Rightarrow> HeadingCache option \<Rightarrow> string list \<Rightarrow> string list" where
  "spliceEntries content h nxt entries =
     (let startPos = int (h_end_line h) + 1 in
      case nxt of
        Some h2 \<Rightarrow>
          (let endPos = int (h_start_line h2) - 1
           in js_splice content startPos (endPos - startPos) entries)
      | None \<Rightarrow>
          (let endPos = int (length content)
           in js_splice content startPos (endPos - startPos) entries))"

text \<open>\<^verbatim>\<open>displayNotice\<close>.\<close>

definition displayNotice :: "string \<Rightarrow> effect" where
  "displayNotice message = Notice (''[Obsidian List Modified] '' @ message)"

definition backupPath :: "env \<Rightarrow> path" where
  "backupPath e = dailyFolder e @ dailyFormatted e @ ''-BACKUP.md''"

definition backupNotice :: "env \<Rightarrow> string" where
  "backupNotice e =
     ''Your daily note for today has been backed up to '' @ backupPath e @ ''. '' @
     ''This is for users who have migrated to OLM 2.0 so that their daily '' @
     ''note content is not lost. Feel free to delete the backup file or port its content '' @
     ''to the new one. This message will not be shown to you again. '' @
     ''This is a one-time process. If you were not a 1.0 user, disregard this.''"

definition saveSettings :: "plugin \<Rightarrow> effect" where
  "saveSettings p = SaveData (settings p) (tracked p)"

text \<open>The part of \<^verbatim>\<open>updateTrackedFiles\<close> under \<^verbatim>\<open>if (dailyNote)\<close>.\<close>

definition writeList :: "env \<Rightarrow> plugin \<Rightarrow> TFile \<Rightarrow> outcome \<times> effect list" where
  "writeList e p dailyNote =
     (case getFileCache e (path dailyNote) of
        None \<Rightarrow> (Threw TypeError, [])
      | Some cache \<Rightarrow>
          (let content = js_split CHR 0x0A (vault_read e (path dailyNote)) in
           case c_headings cache of
             None \<Rightarrow>
               (Done, [displayNotice ''Cannot create list. Please read the Obsidian List Modified 'Headings' settings.''])
           | Some headings \<Rightarrow>
               if heading (settings p) = [] then
                 (Done, [displayNotice ''Cannot create list. Please read the Obsidian List Modified 'Headings' settings.''])
               else
                 (case findHeading (heading (settings p)) headings of
                    None \<Rightarrow>
                      (Done, [displayNotice ''Cannot create list. Please read the Obsidian List Modified settings.''])
                  | Some (h, nxt) \<Rightarrow>
                      (case render_all e (settings p) (path dailyNote) (tracked p) of
                         Inl err \<Rightarrow> (Threw err, [])
                       | Inr entries \<Rightarrow>
                           (Done, [Modify (path dailyNote)
                                     (js_join [CHR 0x0A] (spliceEntries content h nxt entries))])))))"

text \<open>
  The part of \<^verbatim>\<open>updateTrackedFiles\<close> before \<^verbatim>\<open>if (dailyNote)\<close>: the settings are saved,
  today's daily note is looked up (a notice when the lookup throws), backed up once, and
  created when it is missing and the settings say so. The result is the note to write, if
  any, the plugin, and the calls made.
\<close>

definition resolveDailyNote :: "env \<Rightarrow> plugin \<Rightarrow> TFile option \<times> plugin \<times> effect list" where
  "resolveDailyNote e p =
     (let fx1 = [saveSettings p];
          found = (case dailyNoteLookup e of Inl msg \<Rightarrow> None | Inr r \<Rightarrow> r);
          fx2 = (case dailyNoteLookup e of
                   Inl msg \<Rightarrow> [displayNotice ''Unable to load daily note. See console for details.'']
                 | Inr r \<Rightarrow> []);
          backup = (found \<noteq> None \<and> \<not> hasBeenBackedUp (settings p));
          p1 = (if backup then p\<lparr>settings := (settings p)\<lparr>hasBeenBackedUp := True\<rparr>\<rparr> else p);
          fx3 = (case found of
                   Some dn \<Rightarrow>
                     if backup
                     then [displayNotice (backupNotice e), Copy (path dn) (backupPath e),
                           saveSettings p1]
                     else []
                 | None \<Rightarrow> []);
          create = (found = None \<and> automaticallyCreateDailyNote (settings p1));
          fx4 = (if create
                 then [displayNotice ''Creating daily note since it did not exist...'',
                       CreateDailyNote (path (createdDailyNote e))]
                 else []);
          dailyNote = (if create then Some (createdDailyNote e) else found)
      in (dailyNote, p1, fx1 @ fx2 @ fx3 @ fx4))"

text \<open>
  \<^verbatim>\<open>updateTrackedFiles\<close>: the outcome, the plugin afterwards and the calls made to the host.
\<close>

definition updateTrackedFiles :: "env \<Rightarrow> plugin \<Rightarrow> outcome \<times> plugin \<times> effect list" where
  "updateTrackedFiles e p =
     (case resolveDailyNote e p of
        (dailyNote, p1, fx) \<Rightarrow>
          (case dailyNote of
             None \<Rightarrow> (Done, p1, fx)
           | Some dn \<Rightarrow>
               (case writeList e p1 dn of (out, fx5) \<Rightarrow> (out, p1, fx @ fx5))))"

section \<open>The event handlers\<close>

text \<open>\<^verbatim>\<open>xs.push(x)\<close> and \<^verbatim>\<open>xs.remove(x)\<close> on the array at a reference.\<close>

definition push_at :: "ref \<Rightarrow> string \<Rightarrow> plugin \<Rightarrow> plugin" where
  "push_at r x p = p\<lparr>arrays := (arrays p)(r := arrays p r @ [x])\<rparr>"

definition remove_at :: "ref \<Rightarrow> string \<Rightarrow> plugin \<Rightarrow> plugin" where
  "remove_at r x p = p\<lparr>arrays := (arrays p)(r := array_remove x (arrays p r))\<rparr>"

text \<open>
  The first statement of \<^verbatim>\<open>onCacheChange\<close> after the date is read: on a new day the
  settings get a new, empty array and today's date.
\<close>

definition rollover :: "env \<Rightarrow> plugin \<Rightarrow> plugin" where
  "rollover e p =
     (if lastTrackedDate (settings p) \<noteq> currentDate e then
        (case new_array p of
           (r, p') \<Rightarrow>
             p'\<lparr>settings := (settings p')\<lparr>trackedFiles := r, lastTrackedDate := currentDate e\<rparr>\<rparr>)
      else p)"

text \<open>
  The two conditions of \<^verbatim>\<open>onCacheChange\<close>, evaluated from left to right as \<^verbatim>\<open>&&\<close> and
  \<^verbatim>\<open>||\<close> do; \<open>xs\<close> is the array the local variable \<^verbatim>\<open>trackedFiles\<close> names.
\<close>

definition shouldPush ::
    "env \<Rightarrow> ListModifiedSettings \<Rightarrow> TFile \<Rightarrow> CachedMetadata \<Rightarrow> string list \<Rightarrow> error + bool" where
  "shouldPush e s file cache xs =
     (if path file \<in> set xs then Inr False
      else if cacheContainsIgnoredTag s cache then Inr False
      else (case pathIsExcluded e s (path file) of
              Inl err \<Rightarrow> Inl err
            | Inr excluded \<Rightarrow>
                if excluded then Inr False
                else Inr (\<not> noteTitleContainsIgnoredText s (basename file))))"

definition shouldRemove ::
    "env \<Rightarrow> ListModifiedSettings \<Rightarrow> TFile \<Rightarrow> CachedMetadata \<Rightarrow> string list \<Rightarrow> error + bool" where
  "shouldRemove e s file cache xs =
     (if path file \<in> set xs \<and> cacheContainsIgnoredTag s cache then Inr True
      else (case pathIsExcluded e s (path file) of
              Inl err \<Rightarrow> Inl err
            | Inr excluded \<Rightarrow>
                if excluded then Inr True
                else Inr (noteTitleContainsIgnoredText s (basename file))))"

text \<open>
  \<^verbatim>\<open>onCacheChange\<close>. The local variable \<^verbatim>\<open>trackedFiles\<close> is bound to the array of the
  settings before the rollover, and the push and the remove go through it. Two files are
  the same object when their paths are the same.
\<close>

definition onCacheChange ::
    "env \<Rightarrow> TFile \<Rightarrow> CachedMetadata \<Rightarrow> plugin \<Rightarrow> outcome \<times> plugin \<times> effect list" where
  "onCacheChange e file cache p =
     (let trackedFiles_local = trackedFiles (settings p);
          p1 = rollover e p
      in case dailyNoteLookup e of
           Inl msg \<Rightarrow> (Threw (DailyNotesError msg), p1, [])
         | Inr dn \<Rightarrow>
             if map_option path dn = Some (path file) then (Done, p1, [])
             else
               (case shouldPush e (settings p1) file cache (arrays p1 trackedFiles_local) of
                  Inl err \<Rightarrow> (Threw err, p1, [])
                | Inr push \<Rightarrow>
                    (let p2 = (if push then push_at trackedFiles_local (path file) p1 else p1)
                     in case shouldRemove e (settings p2) file cache (arrays p2 trackedFiles_local) of
                          Inl err \<Rightarrow> (Threw err, p2, [])
                        | Inr remove \<Rightarrow>
                            updateTrackedFiles e
                              (if remove then remove_at trackedFiles_local (path file) p2 else p2))))"

text \<open>\<^verbatim>\<open>onVaultDelete\<close>.\<close>

definition onVaultDelete :: "env \<Rightarrow> TAbstractFile \<Rightarrow> plugin \<Rightarrow> outcome \<times> plugin \<times> effect list" where
  "onVaultDelete e file p =
     (case file of
        Folder _ \<Rightarrow> (Done, p, [])
      | File f \<Rightarrow>
          if path f \<in> set (tracked p)
          then updateTrackedFiles e (remove_at (trackedFiles (settings p)) (path f) p)
          else (Done, p, []))"

text \<open>\<^verbatim>\<open>onVaultRename\<close>.\<close>

definition onVaultRename ::
    "env \<Rightarrow> TAbstractFile \<Rightarrow> path \<Rightarrow> plugin \<Rightarrow> outcome \<times> plugin \<times> effect list" where
  "onVaultRename e file oldPath p =
     (case file of
        Folder _ \<Rightarrow> (Done, p, [])
      | File f \<Rightarrow>
          if oldPath \<in> set (tracked p) then
            (let r = trackedFiles (settings p);
                 p1 = push_at r (path f) (remove_at r oldPath p)
             in if \<not> js_includes (outputFormat (settings p1)) ''[[link]]''
                then (case updateTrackedFiles e p1 of
                        (out, p2, fx) \<Rightarrow> (out, p2, saveSettings p1 # fx))
                else (Done, p1, [saveSettings p1]))
          else (Done, p, []))"

section \<open>Loading the plugin\<close>

text \<open>
  The schema of \<^verbatim>\<open>onload\<close>: \<^verbatim>\<open>parseInt(a, 10)\<close>, then a number (NaN is refused) that is
  positive.
\<close>

definition schema_parse :: "string \<Rightarrow> error + js_number" where
  "schema_parse a =
     (case js_parseInt (Some 10) a of
        NaN \<Rightarrow> Inl ZodError
      | Num n \<Rightarrow> if 0 < n then Inr (Num n) else Inl ZodError
      | Big neg \<Rightarrow> if neg then Inl ZodError else Inr (Big False))"

text \<open>
  \<^verbatim>\<open>onload\<close>, once the settings are loaded. \<^verbatim>\<open>DEFAULT_SETTINGS.writeInterval\<close> is declared
  in the settings module and is a parameter here; it is read by \<^verbatim>\<open>parseInt\<close> without a
  radix. The interval is registered with its period in milliseconds; its callback only
  logs.
\<close>

definition onload :: "string \<Rightarrow> plugin \<Rightarrow> effect list" where
  "onload defaultWriteInterval p =
     (let parsed = schema_parse (writeInterval (settings p));
          writeIntervalSec =
            (case parsed of Inl err \<Rightarrow> js_parseInt None defaultWriteInterval | Inr n \<Rightarrow> n);
          fx = (case parsed of
                  Inl err \<Rightarrow>
                    [displayNotice (''Invalid write interval. Defaulting to '' @
                       defaultWriteInterval @ '' seconds.'')]
                | Inr n \<Rightarrow> [])
      in fx @ [RegisterInterval (times_1000 writeIntervalSec),
               RegisterEvent ''changed'', RegisterEvent ''delete'', RegisterEvent ''rename''])"

section \<open>Runs of events\<close>

text \<open>
  The handlers are serialized: one runs to its end before the next starts. An event
  carries the host as it is when its handler runs.
\<close>

datatype event =
    CacheChange env TFile CachedMetadata
  | VaultDelete env TAbstractFile
  | VaultRename env TAbstractFile path
  | Update env

fun handle :: "event \<Rightarrow> plugin \<Rightarrow> outcome \<times> plugin \<times> effect list" where
  "handle (CacheChange e file cache) p = onCacheChange e file cache p"
| "handle (VaultDelete e file) p = onVaultDelete e file p"
| "handle (VaultRename e file oldPath) p = onVaultRename e file oldPath p"
| "handle (Update e) p = updateTrackedFiles e p"

text \<open>A handler that throws leaves the plugin as it was when it threw; the next event still runs.\<close>

fun run :: "event list \<Rightarrow> plugin \<Rightarrow> plugin \<times> effect list" where
  "run [] p = (p, [])"
| "run (ev # evs) p =
     (case handle ev p of
        (out, p1, fx) \<Rightarrow> (case run evs p1 of (p2, fx2) \<Rightarrow> (p2, fx @ fx2)))"

text \<open>The events that rename.\<close>

fun is_rename :: "event \<Rightarrow> bool" where
  "is_rename (VaultRename e file oldPath) = True"
| "is_rename ev = False"

text \<open>The host an event carries.\<close>

fun env_of :: "event \<Rightarrow> env" where
  "env_of (CacheChange e file cache) = e"
| "env_of (VaultDelete e file) = e"
| "env_of (VaultRename e file oldPath) = e"
| "env_of (Update e) = e"

text \<open>The calls of one kind among the calls made to the host.\<close>

fun writes :: "effect list \<Rightarrow> (path \<times> string) list" where
  "writes [] = []"
| "writes (Modify a c # fx) = (a, c) # writes fx"
| "writes (x # fx) = writes fx"

fun copies :: "effect list \<Rightarrow> (path \<times> path) list" where
  "copies [] = []"
| "copies (Copy a b # fx) = (a, b) # copies fx"
| "copies (x # fx) = copies fx"

fun creations :: "effect list \<Rightarrow> path list" where
  "creations [] = []"
| "creations (CreateDailyNote a # fx) = a # creations fx"
| "creations (x # fx) = creations fx"

fun notices :: "effect list \<Rightarrow> string list" where
  "notices [] = []"
| "notices (Notice m # fx) = m # notices fx"
| "notices (x # fx) = notices fx"

section \<open>What replacing the first occurrence means\<close>

text \<open>
  \<open>first_replaced tok w a b\<close>: the text \<open>b\<close> is the text \<open>a\<close> with the leftmost occurrence of
  \<open>tok\<close> replaced by \<open>w\<close>, everything before and after that occurrence copied; a text in
  which \<open>tok\<close> does not occur is copied whole. An occurrence is a contiguous sublist, and the
  one after \<open>pre\<close> is the leftmost when \<open>tok\<close> does not occur in \<open>pre\<close> followed by all but
  the last character of \<open>tok\<close>.
\<close>

inductive first_replaced :: "string \<Rightarrow> string \<Rightarrow> string \<Rightarrow> string \<Rightarrow> bool" for tok w where
  absent: "\<not> sublist tok a \<Longrightarrow> first_replaced tok w a a"
| leftmost: "\<not> sublist tok (pre @ butlast tok) \<Longrightarrow>
     first_replaced tok w (pre @ tok @ post) (pre @ w @ post)"

text \<open>The four tokens \<^verbatim>\<open>getFormattedOutput\<close> looks for.\<close>

definition recognized :: "string list" where
  "recognized = [''[[link]]'', ''[[name]]'', ''[[tags]]'', ''[[ctime]]'']"

section \<open>A small vault\<close>

text \<open>
  A vault with one note and today's daily note, whose text is a heading \<^verbatim>\<open># Modified\<close>, one
  line, and a heading \<^verbatim>\<open># Next\<close>. The daily-notes folder is \<^verbatim>\<open>Daily\<close> and the format is
  \<^verbatim>\<open>YYYY-MM-DD\<close>. Links are generated as wiki links to the base name.
\<close>

definition note_A :: TFile where
  "note_A = \<lparr>path = ''Notes/A.md'', basename = ''A'', parent_path = ''Notes'', ctime = 0\<rparr>"

definition daily_note :: TFile where
  "daily_note =
     \<lparr>path = ''Daily/2024-01-02.md'', basename = ''2024-01-02'', parent_path = ''Daily'', ctime = 0\<rparr>"

definition daily_cache :: CachedMetadata where
  "daily_cache =
     \<lparr>c_headings = Some [\<lparr>h_heading = ''Modified'', h_start_line = 0, h_end_line = 0\<rparr>,
                         \<lparr>h_heading = ''Next'', h_start_line = 2, h_end_line = 2\<rparr>],
      c_tags = []\<rparr>"

definition plain_cache :: CachedMetadata where
  "plain_cache = \<lparr>c_headings = None, c_tags = []\<rparr>"

definition example_env :: env where
  "example_env =
     \<lparr>currentDate = ''2024-01-02'',
      dailyNoteLookup = Inr (Some daily_note),
      createdDailyNote = daily_note,
      dailyFolder = ''Daily'',
      dailyFormatted = ''2024-01-02'',
      getAbstractFileByPath =
        (\<lambda>p. if p = ''Notes/A.md'' then Some note_A
             else if p = ''Daily/2024-01-02.md'' then Some daily_note else None),
      getFileCache =
        (\<lambda>p. if p = ''Daily/2024-01-02.md'' then Some daily_cache
             else if p = ''Notes/A.md'' then Some plain_cache else None),
      vault_read = (\<lambda>p. js_join [CHR 0x0A] [''# Modified'', ''old line'', ''# Next'']),
      generateMarkdownLink = (\<lambda>f src. ''[['' @ basename f @ '']]''),
      formatDate = (\<lambda>t. ''1970-01-01'')\<rparr>"

definition example_settings :: ListModifiedSettings where
  "example_settings =
     \<lparr>trackedFiles = 0, lastTrackedDate = ''2024-01-02'', heading = ''Modified'',
      outputFormat = ''- [[link]]'', tags = ''#daily'', excludedFolders = ''Archive'',
      ignoredNameContains = ''draft'', automaticallyCreateDailyNote = False,
      hasBeenBackedUp = True, writeInterval = ''30''\<rparr>"

text \<open>The plugin with the given tracked files, in the one array of the store.\<close>

definition example_plugin :: "string list \<Rightarrow> plugin" where
  "example_plugin xs = \<lparr>settings = example_settings, arrays = (\<lambda>r. if r = 0 then xs else []), next_ref = 1\<rparr>"

section \<open>What a run of \<^verbatim>\<open>updateTrackedFiles\<close> does to the plugin and asks of the host\<close>

lemma resolveDailyNote_plugin:
  "fst (snd (resolveDailyNote e p)) =
     (if (\<exists>dn. dailyNoteLookup e = Inr (Some dn)) \<and> \<not> hasBeenBackedUp (settings p)
      then p\<lparr>settings := (settings p)\<lparr>hasBeenBackedUp := True\<rparr>\<rparr> else p)"
proof (cases "dailyNoteLookup e")
  case (Inl msg)
  then show ?thesis by (simp add: resolveDailyNote_def Let_def)
next
  case (Inr r)
  then show ?thesis by (cases r) (simp_all add: resolveDailyNote_def Let_def)
qed

lemma resolveDailyNote_note:
  "fst (resolveDailyNote e p) =
     (case dailyNoteLookup e of
        Inr (Some dn) \<Rightarrow> Some dn
      | _ \<Rightarrow> if automaticallyCreateDailyNote (settings p) then Some (createdDailyNote e) else None)"
proof (cases "dailyNoteLookup e")
  case (Inl msg)
  then show ?thesis by (simp add: resolveDailyNote_def Let_def)
next
  case (Inr r)
  then show ?thesis by (cases r) (simp_all add: resolveDailyNote_def Let_def)
qed

lemma writes_resolveDailyNote: "writes (snd (snd (resolveDailyNote e p))) = []"
proof (cases "dailyNoteLookup e")
  case (Inl msg)
  then show ?thesis
    by (simp add: resolveDailyNote_def Let_def saveSettings_def displayNotice_def)
next
  case (Inr r)
  then show ?thesis
    by (cases r) (simp_all add: resolveDailyNote_def Let_def saveSettings_def displayNotice_def)
qed

lemma copies_resolveDailyNote:
  "copies (snd (snd (resolveDailyNote e p))) =
     (case dailyNoteLookup e of
        Inr (Some dn) \<Rightarrow> if hasBeenBackedUp (settings p) then [] else [(path dn, backupPath e)]
      | _ \<Rightarrow> [])"
proof (cases "dailyNoteLookup e")
  case (Inl msg)
  then show ?thesis
    by (simp add: resolveDailyNote_def Let_def saveSettings_def displayNotice_def)
next
  case (Inr r)
  then show ?thesis
    by (cases r) (simp_all add: resolveDailyNote_def Let_def saveSettings_def displayNotice_def)
qed

lemma creations_resolveDailyNote:
  "creations (snd (snd (resolveDailyNote e p))) =
     (case dailyNoteLookup e of
        Inr (Some dn) \<Rightarrow> []
      | _ \<Rightarrow> if automaticallyCreateDailyNote (settings p) then [path (createdDailyNote e)] else [])"
proof (cases "dailyNoteLookup e")
  case (Inl msg)
  then show ?thesis
    by (simp add: resolveDailyNote_def Let_def saveSettings_def displayNotice_def)
next
  case (Inr r)
  then show ?thesis
    by (cases r) (simp_all add: resolveDailyNote_def Let_def saveSettings_def displayNotice_def)
qed

lemma getFormattedOutput_backed_up [simp]:
  "getFormattedOutput e (s\<lparr>hasBeenBackedUp := b\<rparr>) d x = getFormattedOutput e s d x"
  by (simp add: getFormattedOutput_def cong: option.case_cong)

lemma render_all_backed_up [simp]:
  "render_all e (s\<lparr>hasBeenBackedUp := b\<rparr>) d xs = render_all e s d xs"
  by (induction xs) (simp_all cong: sum.case_cong)

lemma writeList_backed_up [simp]:
  "writeList e (p\<lparr>settings := (settings p)\<lparr>hasBeenBackedUp := b\<rparr>\<rparr>) dn = writeList e p dn"
  by (simp add: writeList_def tracked_def Let_def cong: option.case_cong if_cong)

lemma writeList_resolved: "writeList e (fst (snd (resolveDailyNote e p))) dn = writeList e p dn"
  by (simp add: resolveDailyNote_plugin)

lemma updateTrackedFiles_split:
  "updateTrackedFiles e p =
     (case fst (resolveDailyNote e p) of
        None \<Rightarrow> (Done, fst (snd (resolveDailyNote e p)), snd (snd (resolveDailyNote e p)))
      | Some dn \<Rightarrow>
          (fst (writeList e p dn), fst (snd (resolveDailyNote e p)),
           snd (snd (resolveDailyNote e p)) @ snd (writeList e p dn)))"
proof -
  obtain d p1 fx where r: "resolveDailyNote e p = (d, p1, fx)" by (cases "resolveDailyNote e p") auto
  have "p1 = fst (snd (resolveDailyNote e p))" using r by simp
  then have w: "writeList e p1 dn = writeList e p dn" for dn by (simp add: writeList_resolved)
  show ?thesis using r w by (simp add: updateTrackedFiles_def split: option.splits prod.splits)
qed

lemma writes_append [simp]: "writes (xs @ ys) = writes xs @ writes ys"
  by (induction xs rule: writes.induct) simp_all

lemma copies_append [simp]: "copies (xs @ ys) = copies xs @ copies ys"
  by (induction xs rule: copies.induct) simp_all

lemma creations_append [simp]: "creations (xs @ ys) = creations xs @ creations ys"
  by (induction xs rule: creations.induct) simp_all

lemma updateTrackedFiles_plugin:
  "fst (snd (updateTrackedFiles e p)) = fst (snd (resolveDailyNote e p))"
  by (simp add: updateTrackedFiles_split split: option.splits)

lemma tracked_updateTrackedFiles [simp]:
  "tracked (fst (snd (updateTrackedFiles e p))) = tracked p"
  by (simp add: updateTrackedFiles_plugin resolveDailyNote_plugin tracked_def)

lemma writes_updateTrackedFiles:
  "writes (snd (snd (updateTrackedFiles e p))) =
     (case fst (resolveDailyNote e p) of None \<Rightarrow> [] | Some dn \<Rightarrow> writes (snd (writeList e p dn)))"
  by (simp add: updateTrackedFiles_split writes_resolveDailyNote split: option.splits)

lemma copies_writeList: "copies (snd (writeList e p dn)) = []"
  by (simp add: writeList_def displayNotice_def Let_def split: option.splits sum.splits)

lemma creations_writeList: "creations (snd (writeList e p dn)) = []"
  by (simp add: writeList_def displayNotice_def Let_def split: option.splits sum.splits)

lemma copies_updateTrackedFiles:
  "copies (snd (snd (updateTrackedFiles e p))) = copies (snd (snd (resolveDailyNote e p)))"
  by (simp add: updateTrackedFiles_split copies_writeList split: option.splits)

lemma creations_updateTrackedFiles:
  "creations (snd (snd (updateTrackedFiles e p))) = creations (snd (snd (resolveDailyNote e p)))"
  by (simp add: updateTrackedFiles_split creations_writeList split: option.splits)

section \<open>A file renamed\<close>

lemma settings_push_at [simp]: "settings (push_at r x p) = settings p"
  by (simp add: push_at_def)

lemma settings_remove_at [simp]: "settings (remove_at r x p) = settings p"
  by (simp add: remove_at_def)

lemma tracked_rename_step:
  "tracked (push_at (trackedFiles (settings p)) y (remove_at (trackedFiles (settings p)) x p)) =
     removeAll x (tracked p) @ [y]"
  by (simp add: tracked_def push_at_def remove_at_def array_remove_def)

lemma tracked_onVaultRename:
  "tracked (fst (snd (onVaultRename e (File f) oldPath p))) =
     (if oldPath \<in> set (tracked p) then removeAll oldPath (tracked p) @ [path f] else tracked p)"
proof (cases "oldPath \<in> set (tracked p)")
  case False
  then show ?thesis by (simp add: onVaultRename_def)
next
  case True
  let ?p1 = "push_at (trackedFiles (settings p)) (path f) (remove_at (trackedFiles (settings p)) oldPath p)"
  have "tracked (fst (snd (onVaultRename e (File f) oldPath p))) = tracked ?p1"
  proof (cases "js_includes (outputFormat (settings p)) ''[[link]]''")
    case True
    with \<open>oldPath \<in> set (tracked p)\<close> show ?thesis by (simp add: onVaultRename_def Let_def)
  next
    case False
    obtain out p2 fx where u: "updateTrackedFiles e ?p1 = (out, p2, fx)"
      by (cases "updateTrackedFiles e ?p1") auto
    then have "tracked p2 = tracked ?p1"
      using tracked_updateTrackedFiles[of e ?p1] by simp
    with False u \<open>oldPath \<in> set (tracked p)\<close> show ?thesis
      by (simp add: onVaultRename_def Let_def)
  qed
  with True show ?thesis by (simp add: tracked_rename_step)
qed

lemma length_removeAll_distinct:
  "distinct xs \<Longrightarrow> x \<in> set xs \<Longrightarrow> Suc (length (removeAll x xs)) = length xs"
  by (induction xs) auto

text \<open>The small vault, unfolded.\<close>

lemmas vault_defs =
  example_env_def example_plugin_def example_settings_def note_A_def plain_cache_def
  daily_note_def daily_cache_def

text \<open>
  A rename of a file puts the new path at the end of the tracked files and takes the old
  path out, when the old path is tracked; otherwise the tracked files stay as they are. A
  rename of a folder changes nothing. While the tracked paths are distinct, their number
  stays the same.
\<close>

lemma onVaultRename_moves_to_end:
  assumes "distinct (tracked p)"
  shows "tracked (fst (snd (onVaultRename e (File f) oldPath p))) =
           (if oldPath \<in> set (tracked p) then removeAll oldPath (tracked p) @ [path f]
            else tracked p)
         \<and> length (tracked (fst (snd (onVaultRename e (File f) oldPath p)))) = length (tracked p)"
  using assms by (simp add: tracked_onVaultRename length_removeAll_distinct)

text \<open>
  Claim C9 fails on the code. The rename handler pushes the new path without looking
  whether it is tracked already, so the number of tracked paths is not kept: from the two
  tracked paths \<^verbatim>\<open>Notes/A.md\<close> and \<^verbatim>\<open>Notes/B.md\<close>, renaming the first to the second leaves
  one path, twice.
\<close>

theorem rename_onto_tracked_path_shrinks_set:
  "''Notes/A.md'' \<in> set (tracked (example_plugin [''Notes/A.md'', ''Notes/B.md'']))
   \<and> card (set (tracked (example_plugin [''Notes/A.md'', ''Notes/B.md'']))) = 2
   \<and> tracked (fst (snd (onVaultRename example_env (File (note_A\<lparr>path := ''Notes/B.md''\<rparr>))
        ''Notes/A.md'' (example_plugin [''Notes/A.md'', ''Notes/B.md''])))) =
        [''Notes/B.md'', ''Notes/B.md'']
   \<and> card (set (tracked (fst (snd (onVaultRename example_env (File (note_A\<lparr>path := ''Notes/B.md''\<rparr>))
        ''Notes/A.md'' (example_plugin [''Notes/A.md'', ''Notes/B.md''])))))) = 1"
  by (simp add: onVaultRename_def vault_defs tracked_def push_at_def remove_at_def array_remove_def
        js_includes_def saveSettings_def Let_def)

section \<open>A file changed\<close>

lemma indexOf_Nil [simp]: "indexOf [] s = Some 0"
  by (cases s) simp_all

lemma noteTitle_empty_setting:
  "ignoredNameContains s = [] \<Longrightarrow> noteTitleContainsIgnoredText s title"
  by (simp add: noteTitleContainsIgnoredText_def remove_spaces_def toLowerCase_def js_includes_def)

lemma settings_rollover_filters [simp]:
  "ignoredNameContains (settings (rollover e p)) = ignoredNameContains (settings p)"
  "tags (settings (rollover e p)) = tags (settings p)"
  "excludedFolders (settings (rollover e p)) = excludedFolders (settings p)"
  by (simp_all add: rollover_def new_array_def)

lemma tracked_rollover:
  "tracked (rollover e p) = (if lastTrackedDate (settings p) \<noteq> currentDate e then [] else tracked p)"
  by (simp add: rollover_def new_array_def tracked_def)

lemma tracked_remove_at_rollover:
  "tracked (remove_at (trackedFiles (settings p)) x (rollover e p)) =
     (if lastTrackedDate (settings p) \<noteq> currentDate e then [] else removeAll x (tracked p))"
  by (simp add: rollover_def new_array_def tracked_def remove_at_def array_remove_def)

lemma tracked_push_at_rollover:
  "wf_plugin p \<Longrightarrow>
   tracked (push_at (trackedFiles (settings p)) x (rollover e p)) =
     (if lastTrackedDate (settings p) \<noteq> currentDate e then [] else tracked p @ [x])"
  by (simp add: rollover_def new_array_def tracked_def push_at_def wf_plugin_def)

lemma noteTitle_rollover [simp]:
  "noteTitleContainsIgnoredText (settings (rollover e p)) t = noteTitleContainsIgnoredText (settings p) t"
  by (simp add: noteTitleContainsIgnoredText_def)

lemma pathIsExcluded_rollover [simp]:
  "pathIsExcluded e' (settings (rollover e p)) x = pathIsExcluded e' (settings p) x"
  by (simp add: pathIsExcluded_def)

lemma shouldPush_ignored_title:
  "noteTitleContainsIgnoredText s (basename file) \<Longrightarrow> shouldPush e s file cache xs = Inr b \<Longrightarrow> \<not> b"
  by (auto simp: shouldPush_def split: if_splits sum.splits)

lemma shouldRemove_ignored_title:
  "noteTitleContainsIgnoredText s (basename file) \<Longrightarrow> shouldRemove e s file cache xs = Inr b \<Longrightarrow> b"
  by (auto simp: shouldRemove_def split: if_splits sum.splits)

lemma shouldPush_no_throw:
  "pathIsExcluded e s (path file) = Inr x \<Longrightarrow> \<exists>b. shouldPush e s file cache xs = Inr b"
  by (auto simp: shouldPush_def)

lemma shouldRemove_no_throw:
  "pathIsExcluded e s (path file) = Inr x \<Longrightarrow> \<exists>b. shouldRemove e s file cache xs = Inr b"
  by (auto simp: shouldRemove_def)

text \<open>
  With a title that counts as ignored, the handler ends with the tracked files as the
  rollover left them, or with the changed path removed from them.
\<close>

lemma onCacheChange_ignored_title:
  assumes t: "noteTitleContainsIgnoredText (settings p) (basename file)"
  shows "tracked (fst (snd (onCacheChange e file cache p))) = tracked (rollover e p)
       \<or> tracked (fst (snd (onCacheChange e file cache p))) =
           tracked (remove_at (trackedFiles (settings p)) (path file) (rollover e p))"
proof (cases "dailyNoteLookup e")
  case (Inl msg)
  then show ?thesis by (simp add: onCacheChange_def Let_def)
next
  case (Inr dn)
  let ?p1 = "rollover e p"
  let ?r = "trackedFiles (settings p)"
  show ?thesis
  proof (cases "map_option path dn = Some (path file)")
    case True
    with Inr show ?thesis by (simp add: onCacheChange_def Let_def)
  next
    case False
    show ?thesis
    proof (cases "shouldPush e (settings ?p1) file cache (arrays ?p1 ?r)")
      case (Inl err)
      with Inr False show ?thesis by (simp add: onCacheChange_def Let_def)
    next
      case push: (Inr b)
      have nb: "\<not> b" using shouldPush_ignored_title[OF _ push] t by simp
      show ?thesis
      proof (cases "shouldRemove e (settings ?p1) file cache (arrays ?p1 ?r)")
        case (Inl err)
        with Inr False push nb show ?thesis by (simp add: onCacheChange_def Let_def)
      next
        case rem: (Inr c)
        have c: "c" using shouldRemove_ignored_title[OF _ rem] t by simp
        with Inr False push nb rem show ?thesis by (simp add: onCacheChange_def Let_def)
      qed
    qed
  qed
qed

lemma onCacheChange_ignored_title_removed:
  assumes t: "noteTitleContainsIgnoredText (settings p) (basename file)"
      and l: "dailyNoteLookup e = Inr dn" and n: "map_option path dn \<noteq> Some (path file)"
      and x: "pathIsExcluded e (settings p) (path file) = Inr b"
  shows "tracked (fst (snd (onCacheChange e file cache p))) =
           tracked (remove_at (trackedFiles (settings p)) (path file) (rollover e p))"
proof -
  let ?p1 = "rollover e p"
  let ?r = "trackedFiles (settings p)"
  have x1: "pathIsExcluded e (settings ?p1) (path file) = Inr b" using x by simp
  obtain b1 where push: "shouldPush e (settings ?p1) file cache (arrays ?p1 ?r) = Inr b1"
    using shouldPush_no_throw[OF x1] by blast
  have nb: "\<not> b1" using shouldPush_ignored_title[OF _ push] t by simp
  obtain b2 where rem: "shouldRemove e (settings ?p1) file cache (arrays ?p1 ?r) = Inr b2"
    using shouldRemove_no_throw[OF x1] by blast
  have c: "b2" using shouldRemove_ignored_title[OF _ rem] t by simp
  show ?thesis using l n push nb rem c by (auto simp: onCacheChange_def Let_def)
qed

text \<open>
  Claim C10, as amended. With the setting \<^verbatim>\<open>ignoredNameContains\<close> empty, every title
  counts as containing ignored text (the split of the empty string is one empty entry, and
  every string includes the empty string). So \<^verbatim>\<open>onCacheChange\<close> never adds a path to the
  tracked files; and when the changed file is not today's daily note, and the lookup of
  the daily note and the test of the excluded folders return, the path of the changed file
  is not tracked afterwards, whatever its title.
\<close>

theorem empty_ignored_text_matches_every_title:
  assumes "ignoredNameContains (settings p) = []"
  shows "noteTitleContainsIgnoredText (settings p) title
       \<and> set (tracked (fst (snd (onCacheChange e file cache p)))) \<subseteq> set (tracked p)
       \<and> (dailyNoteLookup e = Inr dn \<and> map_option path dn \<noteq> Some (path file)
            \<and> pathIsExcluded e (settings p) (path file) = Inr b
          \<longrightarrow> path file \<notin> set (tracked (fst (snd (onCacheChange e file cache p)))))"
proof -
  have t: "noteTitleContainsIgnoredText (settings p) u" for u
    using assms by (rule noteTitle_empty_setting)
  have sub: "set (tracked (fst (snd (onCacheChange e file cache p)))) \<subseteq> set (tracked p)"
    using onCacheChange_ignored_title[of p "file" e cache, OF t]
    by (auto simp: tracked_rollover tracked_remove_at_rollover split: if_splits)
  have gone: "path file \<notin> set (tracked (fst (snd (onCacheChange e file cache p))))"
    if "dailyNoteLookup e = Inr dn" "map_option path dn \<noteq> Some (path file)"
       "pathIsExcluded e (settings p) (path file) = Inr b"
    using onCacheChange_ignored_title_removed[of p "file" e dn b cache, OF t that]
    by (simp add: tracked_remove_at_rollover)
  show ?thesis using t sub gone by blast
qed

theorem empty_ignored_text_matches_every_title_witness:
  "ignoredNameContains (settings ((example_plugin [''Notes/A.md''])
      \<lparr>settings := example_settings\<lparr>ignoredNameContains := []\<rparr>\<rparr>)) = []
   \<and> noteTitleContainsIgnoredText (example_settings\<lparr>ignoredNameContains := []\<rparr>) ''A''
   \<and> dailyNoteLookup example_env = Inr (Some daily_note)
   \<and> map_option path (Some daily_note) \<noteq> Some (path note_A)
   \<and> pathIsExcluded example_env (example_settings\<lparr>ignoredNameContains := []\<rparr>) (path note_A) = Inr False
   \<and> path note_A \<notin> set (tracked (fst (snd (onCacheChange example_env note_A plain_cache
        ((example_plugin [''Notes/A.md''])\<lparr>settings := example_settings\<lparr>ignoredNameContains := []\<rparr>\<rparr>)))))"
proof -
  let ?p = "(example_plugin [''Notes/A.md''])\<lparr>settings := example_settings\<lparr>ignoredNameContains := []\<rparr>\<rparr>"
  have h: "ignoredNameContains (settings ?p) = []" by simp
  have s: "settings ?p = example_settings\<lparr>ignoredNameContains := []\<rparr>" by simp
  have l: "dailyNoteLookup example_env = Inr (Some daily_note)" by (simp add: example_env_def)
  have n: "map_option path (Some daily_note) \<noteq> Some (path note_A)"
    by (simp add: daily_note_def note_A_def)
  have x: "pathIsExcluded example_env (example_settings\<lparr>ignoredNameContains := []\<rparr>) (path note_A) = Inr False"
    by (simp add: pathIsExcluded_def vault_defs match_separator_def is_space_def strip_slashes_def)
  show ?thesis
    using empty_ignored_text_matches_every_title[OF h, of "''A''" example_env note_A plain_cache
            "Some daily_note" False] h l n x
    unfolding s by blast
qed

text \<open>
  The claim as first stated fails for today's daily note: the handler returns before its
  membership update, so a daily note that is tracked stays tracked. The same holds when
  the lookup of the daily note throws.
\<close>

theorem daily_note_stays_tracked_counterexample:
  "ignoredNameContains (example_settings\<lparr>ignoredNameContains := []\<rparr>) = []
   \<and> tracked (fst (snd (onCacheChange example_env daily_note daily_cache
        ((example_plugin [''Daily/2024-01-02.md''])
           \<lparr>settings := example_settings\<lparr>ignoredNameContains := []\<rparr>\<rparr>)))) = [''Daily/2024-01-02.md'']
   \<and> path daily_note \<in> set (tracked (fst (snd (onCacheChange example_env daily_note daily_cache
        ((example_plugin [''Daily/2024-01-02.md''])
           \<lparr>settings := example_settings\<lparr>ignoredNameContains := []\<rparr>\<rparr>)))))
   \<and> tracked (fst (snd (onCacheChange (example_env\<lparr>dailyNoteLookup := Inl ''no folder''\<rparr>)
        note_A plain_cache
        ((example_plugin [''Notes/A.md''])
           \<lparr>settings := example_settings\<lparr>ignoredNameContains := []\<rparr>\<rparr>)))) = [''Notes/A.md'']"
  by (simp add: onCacheChange_def Let_def rollover_def vault_defs tracked_def)

section \<open>Without the heading\<close>

lemma findHeading_None_iff: "findHeading h hs = None \<longleftrightarrow> h \<notin> h_heading ` set hs"
  by (induction hs) auto

lemma findHeading_Some_heading: "findHeading h hs = Some (x, nxt) \<Longrightarrow> h_heading x = h"
  by (induction hs) (auto split: if_splits)

text \<open>Without a heading to write under, the write step ends with one notice and nothing else.\<close>

lemma writeList_no_heading:
  assumes "getFileCache e (path dn) = Some cache"
      and "c_headings cache = None \<or> heading (settings p) = []
           \<or> (\<exists>hs. c_headings cache = Some hs \<and> heading (settings p) \<notin> h_heading ` set hs)"
  shows "writeList e p dn =
           (Done, [displayNotice (if c_headings cache = None \<or> heading (settings p) = []
              then ''Cannot create list. Please read the Obsidian List Modified 'Headings' settings.''
              else ''Cannot create list. Please read the Obsidian List Modified settings.'')])"
proof (cases "c_headings cache")
  case None
  with assms(1) show ?thesis by (simp add: writeList_def Let_def)
next
  case (Some hs)
  show ?thesis
  proof (cases "heading (settings p) = []")
    case True
    with assms(1) Some show ?thesis by (simp add: writeList_def Let_def)
  next
    case False
    with assms(2) Some have "findHeading (heading (settings p)) hs = None"
      by (simp add: findHeading_None_iff)
    with assms(1) Some False show ?thesis by (simp add: writeList_def Let_def)
  qed
qed

text \<open>
  When today's daily note is at hand (found, or created because the settings say so), its
  metadata is there, and the metadata has no headings, or no heading is configured, or no
  heading of the note has exactly the configured text, the run ends normally without any
  write to a file (the note keeps its text) and shows a notice that the list cannot be
  created.
\<close>

lemma no_heading_no_write:
  assumes "fst (resolveDailyNote e p) = Some dn"
      and "getFileCache e (path dn) = Some cache"
      and "c_headings cache = None \<or> heading (settings p) = []
           \<or> (\<exists>hs. c_headings cache = Some hs \<and> heading (settings p) \<notin> h_heading ` set hs)"
  shows "fst (updateTrackedFiles e p) = Done
       \<and> writes (snd (snd (updateTrackedFiles e p))) = []
       \<and> (''[Obsidian List Modified] Cannot create list. Please read the Obsidian List Modified 'Headings' settings.''
             \<in> set (notices (snd (snd (updateTrackedFiles e p))))
           \<or> ''[Obsidian List Modified] Cannot create list. Please read the Obsidian List Modified settings.''
             \<in> set (notices (snd (snd (updateTrackedFiles e p)))))"
proof -
  let ?m = "if c_headings cache = None \<or> heading (settings p) = []
              then ''Cannot create list. Please read the Obsidian List Modified 'Headings' settings.''
              else ''Cannot create list. Please read the Obsidian List Modified settings.''"
  have w: "writeList e p dn = (Done, [displayNotice ?m])"
    using writeList_no_heading[OF assms(2,3)] .
  have u: "updateTrackedFiles e p =
             (Done, fst (snd (resolveDailyNote e p)), snd (snd (resolveDailyNote e p)) @ [displayNotice ?m])"
    using assms(1) w by (simp add: updateTrackedFiles_split)
  have n: "notices (xs @ [displayNotice m]) = notices xs @ [''[Obsidian List Modified] '' @ m]" for xs m
    by (induction xs rule: notices.induct) (simp_all add: displayNotice_def)
  have "writes (snd (snd (updateTrackedFiles e p))) = []"
    by (simp add: u writes_resolveDailyNote displayNotice_def)
  moreover have "fst (updateTrackedFiles e p) = Done" by (simp add: u)
  moreover have "''[Obsidian List Modified] '' @ ?m \<in> set (notices (snd (snd (updateTrackedFiles e p))))"
    by (simp only: u snd_conv n) simp
  ultimately show ?thesis by (auto split: if_splits)
qed

text \<open>
  Claim C7 fails on the code when the metadata of the daily note is not there at all. The
  headings are read from the metadata before the test for missing headings, so the read
  throws: the run ends with a type error and without the notice, both for a note that was
  found and for one that was just created. Nothing is written in either case.
\<close>

theorem missing_metadata_no_notice:
  "getFileCache (example_env\<lparr>getFileCache := (\<lambda>p. None)\<rparr>) (path daily_note) = None
   \<and> updateTrackedFiles (example_env\<lparr>getFileCache := (\<lambda>p. None)\<rparr>) (example_plugin [''Notes/A.md'']) =
        (Threw TypeError, example_plugin [''Notes/A.md''], [saveSettings (example_plugin [''Notes/A.md''])])
   \<and> notices (snd (snd (updateTrackedFiles (example_env\<lparr>getFileCache := (\<lambda>p. None)\<rparr>)
        (example_plugin [''Notes/A.md''])))) = []
   \<and> writes (snd (snd (updateTrackedFiles (example_env\<lparr>getFileCache := (\<lambda>p. None)\<rparr>)
        (example_plugin [''Notes/A.md''])))) = []
   \<and> fst (updateTrackedFiles (example_env\<lparr>dailyNoteLookup := Inr None, getFileCache := (\<lambda>p. None)\<rparr>)
        ((example_plugin [''Notes/A.md''])
           \<lparr>settings := example_settings\<lparr>automaticallyCreateDailyNote := True\<rparr>\<rparr>)) = Threw TypeError
   \<and> notices (snd (snd (updateTrackedFiles
        (example_env\<lparr>dailyNoteLookup := Inr None, getFileCache := (\<lambda>p. None)\<rparr>)
        ((example_plugin [''Notes/A.md''])
           \<lparr>settings := example_settings\<lparr>automaticallyCreateDailyNote := True\<rparr>\<rparr>)))) =
        [''[Obsidian List Modified] Creating daily note since it did not exist...'']
   \<and> writes (snd (snd (updateTrackedFiles
        (example_env\<lparr>dailyNoteLookup := Inr None, getFileCache := (\<lambda>p. None)\<rparr>)
        ((example_plugin [''Notes/A.md''])
           \<lparr>settings := example_settings\<lparr>automaticallyCreateDailyNote := True\<rparr>\<rparr>)))) = []"
  by (simp add: updateTrackedFiles_def resolveDailyNote_def writeList_def Let_def vault_defs
        saveSettings_def displayNotice_def tracked_def)

section \<open>A tracked path without a file\<close>

lemma getFormattedOutput_error: "getFormattedOutput e s d x = Inl err \<Longrightarrow> err = TypeError"
  by (simp add: getFormattedOutput_def split: option.splits)

lemma getFormattedOutput_stale:
  "getAbstractFileByPath e x = None \<Longrightarrow> getFormattedOutput e s d x = Inl TypeError"
  by (simp add: getFormattedOutput_def)

lemma render_all_stale:
  "x \<in> set xs \<Longrightarrow> getAbstractFileByPath e x = None \<Longrightarrow> render_all e s d xs = Inl TypeError"
proof (induction xs)
  case Nil
  then show ?case by simp
next
  case (Cons y ys)
  show ?case
  proof (cases "getFormattedOutput e s d y")
    case (Inl err)
    then show ?thesis using getFormattedOutput_error[OF Inl] by simp
  next
    case (Inr line)
    then have "x \<noteq> y" using Cons.prems(2) getFormattedOutput_stale[of e x s d] by auto
    then have "render_all e s d ys = Inl TypeError" using Cons by simp
    with Inr show ?thesis by simp
  qed
qed

lemma writeList_stale:
  assumes "x \<in> set (tracked p)" and "getAbstractFileByPath e x = None"
  shows "writes (snd (writeList e p dn)) = []"
proof -
  have r: "render_all e (settings p) (path dn) (tracked p) = Inl TypeError"
    using render_all_stale[OF assms] .
  show ?thesis
    by (simp add: writeList_def Let_def r displayNotice_def split: option.splits prod.splits)
qed

lemma writeList_stale_throws:
  assumes "x \<in> set (tracked p)" and "getAbstractFileByPath e x = None"
      and "getFileCache e (path dn) = Some cache" and "c_headings cache = Some hs"
      and "heading (settings p) \<noteq> []" and "heading (settings p) \<in> h_heading ` set hs"
  shows "writeList e p dn = (Threw TypeError, [])"
proof -
  have r: "render_all e (settings p) (path dn) (tracked p) = Inl TypeError"
    using render_all_stale[OF assms(1,2)] .
  obtain h nxt where "findHeading (heading (settings p)) hs = Some (h, nxt)"
    using assms(6) findHeading_None_iff[of "heading (settings p)" hs]
    by (cases "findHeading (heading (settings p)) hs") auto
  then show ?thesis using assms(3,4,5) r by (simp add: writeList_def Let_def)
qed

text \<open>
  When some tracked path no longer resolves to a file, a run of \<^verbatim>\<open>updateTrackedFiles\<close>
  writes to no file; and when the run gets as far as rendering (the daily note is at hand
  and has the configured heading), rendering throws a type error out of the map over the
  tracked files and the run ends with that exception.
\<close>

lemma updateTrackedFiles_stale:
  assumes "x \<in> set (tracked p)" and "getAbstractFileByPath e x = None"
  shows "writes (snd (snd (updateTrackedFiles e p))) = []
       \<and> (fst (resolveDailyNote e p) = Some dn \<and> getFileCache e (path dn) = Some cache
            \<and> c_headings cache = Some hs \<and> heading (settings p) \<noteq> []
            \<and> heading (settings p) \<in> h_heading ` set hs
          \<longrightarrow> fst (updateTrackedFiles e p) = Threw TypeError)"
proof -
  have "writes (snd (snd (updateTrackedFiles e p))) = []"
    by (simp add: writes_updateTrackedFiles writeList_stale[OF assms] split: option.splits)
  moreover have "fst (updateTrackedFiles e p) = Threw TypeError"
    if "fst (resolveDailyNote e p) = Some dn" "getFileCache e (path dn) = Some cache"
       "c_headings cache = Some hs" "heading (settings p) \<noteq> []"
       "heading (settings p) \<in> h_heading ` set hs"
    using that(1) writeList_stale_throws[OF assms that(2-5)]
    by (simp add: updateTrackedFiles_split)
  ultimately show ?thesis by blast
qed

text \<open>
  Claim C4 fails on the code. \<^verbatim>\<open>getFormattedOutput\<close> reads a property of the file it
  looked up without testing it for null, and nothing around the map over the tracked files
  catches the exception. With the tracked files \<^verbatim>\<open>Notes/Gone.md\<close>, which has no file, and
  \<^verbatim>\<open>Notes/A.md\<close>, which has one, the run ends with a type error, shows no notice and writes
  nothing: the entry of \<^verbatim>\<open>Notes/A.md\<close>, which is written when it is tracked alone, is not
  written either.
\<close>

theorem stale_tracked_path_aborts_run:
  "getAbstractFileByPath example_env ''Notes/Gone.md'' = None
   \<and> getAbstractFileByPath example_env ''Notes/A.md'' = Some note_A
   \<and> getFormattedOutput example_env example_settings ''Daily/2024-01-02.md'' ''Notes/Gone.md'' =
        Inl TypeError
   \<and> updateTrackedFiles example_env (example_plugin [''Notes/Gone.md'', ''Notes/A.md'']) =
        (Threw TypeError, example_plugin [''Notes/Gone.md'', ''Notes/A.md''],
         [saveSettings (example_plugin [''Notes/Gone.md'', ''Notes/A.md''])])
   \<and> writes (snd (snd (updateTrackedFiles example_env
        (example_plugin [''Notes/Gone.md'', ''Notes/A.md''])))) = []
   \<and> notices (snd (snd (updateTrackedFiles example_env
        (example_plugin [''Notes/Gone.md'', ''Notes/A.md''])))) = []
   \<and> writes (snd (snd (updateTrackedFiles example_env (example_plugin [''Notes/A.md''])))) =
        [(''Daily/2024-01-02.md'',
          js_join [CHR 0x0A] [''# Modified'', ''- [[A]]'', ''old line'', ''# Next''])]"
  by (simp add: updateTrackedFiles_def resolveDailyNote_def writeList_def Let_def vault_defs
        saveSettings_def displayNotice_def tracked_def getFormattedOutput_def js_replace_def
        spliceEntries_def js_splice_def)

section \<open>The backup\<close>

lemma settings_rollover_backed_up [simp]:
  "hasBeenBackedUp (settings (rollover e p)) = hasBeenBackedUp (settings p)"
  by (simp add: rollover_def new_array_def)

lemma resolveDailyNote_backed_up:
  "hasBeenBackedUp (settings p) \<Longrightarrow>
     hasBeenBackedUp (settings (fst (snd (resolveDailyNote e p))))
     \<and> copies (snd (snd (resolveDailyNote e p))) = []"
  by (simp add: resolveDailyNote_plugin copies_resolveDailyNote split: sum.splits option.splits)

lemma updateTrackedFiles_backed_up:
  "hasBeenBackedUp (settings p) \<Longrightarrow>
     hasBeenBackedUp (settings (fst (snd (updateTrackedFiles e p))))
     \<and> copies (snd (snd (updateTrackedFiles e p))) = []"
  by (simp add: updateTrackedFiles_plugin copies_updateTrackedFiles resolveDailyNote_backed_up)

text \<open>
  Every handler either stops early, with the settings as the rollover left them and no
  call to the host but possibly a save, or goes on to \<^verbatim>\<open>updateTrackedFiles\<close> from a plugin
  with those settings.
\<close>

lemma onCacheChange_shape:
  "\<exists>q. settings q = settings (rollover e p)
     \<and> ((\<exists>out. onCacheChange e file cache p = (out, q, []))
        \<or> onCacheChange e file cache p = updateTrackedFiles e q)"
proof (cases "dailyNoteLookup e")
  case (Inl msg)
  then show ?thesis by (auto simp: onCacheChange_def Let_def)
next
  case (Inr dn)
  let ?p1 = "rollover e p"
  let ?r = "trackedFiles (settings p)"
  show ?thesis
  proof (cases "map_option path dn = Some (path file)")
    case True
    with Inr show ?thesis by (auto simp: onCacheChange_def Let_def)
  next
    case False
    show ?thesis
    proof (cases "shouldPush e (settings ?p1) file cache (arrays ?p1 ?r)")
      case (Inl err)
      with Inr False show ?thesis by (auto simp: onCacheChange_def Let_def)
    next
      case push: (Inr b)
      let ?p2 = "if b then push_at ?r (path file) ?p1 else ?p1"
      have s2: "settings ?p2 = settings ?p1" by simp
      show ?thesis
      proof (cases "shouldRemove e (settings ?p2) file cache (arrays ?p2 ?r)")
        case (Inl err)
        with Inr False push have "onCacheChange e file cache p = (Threw err, ?p2, [])"
          by (auto simp: onCacheChange_def Let_def)
        with s2 show ?thesis by blast
      next
        case rem: (Inr c)
        let ?p3 = "if c then remove_at ?r (path file) ?p2 else ?p2"
        have s3: "settings ?p3 = settings ?p1" by simp
        from Inr False push rem have "onCacheChange e file cache p = updateTrackedFiles e ?p3"
          by (auto simp: onCacheChange_def Let_def)
        with s3 show ?thesis by blast
      qed
    qed
  qed
qed

lemma onCacheChange_backed_up:
  assumes "hasBeenBackedUp (settings p)"
  shows "hasBeenBackedUp (settings (fst (snd (onCacheChange e file cache p))))
       \<and> copies (snd (snd (onCacheChange e file cache p))) = []"
proof -
  obtain q where q: "settings q = settings (rollover e p)"
      "(\<exists>out. onCacheChange e file cache p = (out, q, []))
        \<or> onCacheChange e file cache p = updateTrackedFiles e q"
    using onCacheChange_shape by blast
  have b: "hasBeenBackedUp (settings q)" using q(1) assms by simp
  from q(2) show ?thesis
  proof
    assume "\<exists>out. onCacheChange e file cache p = (out, q, [])"
    then show ?thesis using b by auto
  next
    assume "onCacheChange e file cache p = updateTrackedFiles e q"
    then show ?thesis using updateTrackedFiles_backed_up[OF b] by simp
  qed
qed

lemma onVaultDelete_backed_up:
  assumes "hasBeenBackedUp (settings p)"
  shows "hasBeenBackedUp (settings (fst (snd (onVaultDelete e f p))))
       \<and> copies (snd (snd (onVaultDelete e f p))) = []"
proof (cases f)
  case (Folder x)
  with assms show ?thesis by (simp add: onVaultDelete_def)
next
  case (File tf)
  show ?thesis
  proof (cases "path tf \<in> set (tracked p)")
    case False
    with File assms show ?thesis by (simp add: onVaultDelete_def)
  next
    case True
    have "hasBeenBackedUp (settings (remove_at (trackedFiles (settings p)) (path tf) p))"
      using assms by simp
    from updateTrackedFiles_backed_up[OF this] File True show ?thesis
      by (simp add: onVaultDelete_def)
  qed
qed

lemma onVaultRename_backed_up:
  assumes "hasBeenBackedUp (settings p)"
  shows "hasBeenBackedUp (settings (fst (snd (onVaultRename e f old p))))
       \<and> copies (snd (snd (onVaultRename e f old p))) = []"
proof (cases f)
  case (Folder x)
  with assms show ?thesis by (simp add: onVaultRename_def)
next
  case (File tf)
  let ?p1 = "push_at (trackedFiles (settings p)) (path tf) (remove_at (trackedFiles (settings p)) old p)"
  have b: "hasBeenBackedUp (settings ?p1)" using assms by simp
  show ?thesis
  proof (cases "old \<in> set (tracked p)")
    case False
    with File assms show ?thesis by (simp add: onVaultRename_def)
  next
    case True
    show ?thesis
    proof (cases "js_includes (outputFormat (settings p)) ''[[link]]''")
      case True
      with File \<open>old \<in> set (tracked p)\<close> b show ?thesis
        by (simp add: onVaultRename_def Let_def saveSettings_def)
    next
      case False
      obtain out p2 fx where u: "updateTrackedFiles e ?p1 = (out, p2, fx)"
        by (cases "updateTrackedFiles e ?p1") auto
      with updateTrackedFiles_backed_up[OF b, of e] have "hasBeenBackedUp (settings p2)" "copies fx = []"
        by simp_all
      with File \<open>old \<in> set (tracked p)\<close> False u show ?thesis
        by (simp add: onVaultRename_def Let_def saveSettings_def)
    qed
  qed
qed

lemma handle_backed_up:
  "hasBeenBackedUp (settings p) \<Longrightarrow>
     hasBeenBackedUp (settings (fst (snd (handle ev p)))) \<and> copies (snd (snd (handle ev p))) = []"
  by (cases ev)
     (simp_all add: onCacheChange_backed_up onVaultDelete_backed_up onVaultRename_backed_up
        updateTrackedFiles_backed_up)

lemma run_backed_up:
  "hasBeenBackedUp (settings p) \<Longrightarrow>
     hasBeenBackedUp (settings (fst (run evs p))) \<and> copies (snd (run evs p)) = []"
proof (induction evs arbitrary: p)
  case Nil
  then show ?case by simp
next
  case (Cons ev evs)
  obtain out p1 fx where h: "handle ev p = (out, p1, fx)" by (cases "handle ev p") auto
  with handle_backed_up[OF Cons.prems, of ev] have b: "hasBeenBackedUp (settings p1)" "copies fx = []"
    by simp_all
  obtain p2 fx2 where r: "run evs p1 = (p2, fx2)" by (cases "run evs p1") auto
  with Cons.IH[OF b(1)] have "hasBeenBackedUp (settings p2)" "copies fx2 = []" by simp_all
  with h r b show ?case by simp
qed

lemma settings_rollover_create [simp]:
  "automaticallyCreateDailyNote (settings (rollover e p)) = automaticallyCreateDailyNote (settings p)"
  by (simp add: rollover_def new_array_def)

text \<open>
  A run of \<^verbatim>\<open>updateTrackedFiles\<close> leaves the setting \<^verbatim>\<open>automaticallyCreateDailyNote\<close> as it
  is, and creates a note only when the setting is on and the lookup gave no daily note.
\<close>

lemma updateTrackedFiles_creations:
  "automaticallyCreateDailyNote (settings (fst (snd (updateTrackedFiles e p)))) =
     automaticallyCreateDailyNote (settings p)
   \<and> creations (snd (snd (updateTrackedFiles e p))) =
       (if automaticallyCreateDailyNote (settings p) \<and> (\<forall>dn. dailyNoteLookup e \<noteq> Inr (Some dn))
        then [path (createdDailyNote e)] else [])"
proof (cases "dailyNoteLookup e")
  case (Inl msg)
  then show ?thesis
    by (simp add: updateTrackedFiles_plugin resolveDailyNote_plugin creations_updateTrackedFiles
          creations_resolveDailyNote)
next
  case (Inr r)
  then show ?thesis
    by (cases r)
       (simp_all add: updateTrackedFiles_plugin resolveDailyNote_plugin creations_updateTrackedFiles
          creations_resolveDailyNote)
qed

lemma onCacheChange_creations:
  "automaticallyCreateDailyNote (settings (fst (snd (onCacheChange e file cache p)))) =
     automaticallyCreateDailyNote (settings p)
   \<and> set (creations (snd (snd (onCacheChange e file cache p)))) \<subseteq>
       (if automaticallyCreateDailyNote (settings p) \<and> (\<forall>dn. dailyNoteLookup e \<noteq> Inr (Some dn))
        then {path (createdDailyNote e)} else {})"
proof -
  obtain q where q: "settings q = settings (rollover e p)"
      "(\<exists>out. onCacheChange e file cache p = (out, q, []))
        \<or> onCacheChange e file cache p = updateTrackedFiles e q"
    using onCacheChange_shape by blast
  have b: "automaticallyCreateDailyNote (settings q) = automaticallyCreateDailyNote (settings p)"
    using q(1) by simp
  from q(2) show ?thesis
  proof
    assume "\<exists>out. onCacheChange e file cache p = (out, q, [])"
    then show ?thesis using b by auto
  next
    assume "onCacheChange e file cache p = updateTrackedFiles e q"
    then show ?thesis using updateTrackedFiles_creations[of e q] b by simp
  qed
qed

lemma onVaultDelete_creations:
  "automaticallyCreateDailyNote (settings (fst (snd (onVaultDelete e f p)))) =
     automaticallyCreateDailyNote (settings p)
   \<and> set (creations (snd (snd (onVaultDelete e f p)))) \<subseteq>
       (if automaticallyCreateDailyNote (settings p) \<and> (\<forall>dn. dailyNoteLookup e \<noteq> Inr (Some dn))
        then {path (createdDailyNote e)} else {})"
proof (cases f)
  case (Folder x)
  then show ?thesis by (simp add: onVaultDelete_def)
next
  case (File tf)
  show ?thesis
  proof (cases "path tf \<in> set (tracked p)")
    case False
    with File show ?thesis by (simp add: onVaultDelete_def)
  next
    case True
    let ?q = "remove_at (trackedFiles (settings p)) (path tf) p"
    have "settings ?q = settings p" by simp
    with updateTrackedFiles_creations[of e ?q] File True show ?thesis
      by (simp add: onVaultDelete_def)
  qed
qed

lemma onVaultRename_creations:
  "automaticallyCreateDailyNote (settings (fst (snd (onVaultRename e f old p)))) =
     automaticallyCreateDailyNote (settings p)
   \<and> set (creations (snd (snd (onVaultRename e f old p)))) \<subseteq>
       (if automaticallyCreateDailyNote (settings p) \<and> (\<forall>dn. dailyNoteLookup e \<noteq> Inr (Some dn))
        then {path (createdDailyNote e)} else {})"
proof (cases f)
  case (Folder x)
  then show ?thesis by (simp add: onVaultRename_def)
next
  case (File tf)
  let ?p1 = "push_at (trackedFiles (settings p)) (path tf) (remove_at (trackedFiles (settings p)) old p)"
  have b: "settings ?p1 = settings p" by simp
  show ?thesis
  proof (cases "old \<in> set (tracked p)")
    case False
    with File show ?thesis by (simp add: onVaultRename_def)
  next
    case True
    show ?thesis
    proof (cases "js_includes (outputFormat (settings p)) ''[[link]]''")
      case True
      with File \<open>old \<in> set (tracked p)\<close> show ?thesis
        by (simp add: onVaultRename_def Let_def saveSettings_def)
    next
      case False
      obtain out p2 fx where u: "updateTrackedFiles e ?p1 = (out, p2, fx)"
        by (cases "updateTrackedFiles e ?p1") auto
      with updateTrackedFiles_creations[of e ?p1] b
      have "automaticallyCreateDailyNote (settings p2) = automaticallyCreateDailyNote (settings p)"
           "creations fx =
              (if automaticallyCreateDailyNote (settings p) \<and> (\<forall>dn. dailyNoteLookup e \<noteq> Inr (Some dn))
               then [path (createdDailyNote e)] else [])"
        by simp_all
      with File \<open>old \<in> set (tracked p)\<close> False u show ?thesis
        by (simp add: onVaultRename_def Let_def saveSettings_def)
    qed
  qed
qed

lemma handle_creations:
  "automaticallyCreateDailyNote (settings (fst (snd (handle ev p)))) =
     automaticallyCreateDailyNote (settings p)
   \<and> set (creations (snd (snd (handle ev p)))) \<subseteq>
       (if automaticallyCreateDailyNote (settings p)
           \<and> (\<forall>dn. dailyNoteLookup (env_of ev) \<noteq> Inr (Some dn))
        then {path (createdDailyNote (env_of ev))} else {})"
proof (cases ev)
  case (CacheChange e fl cache)
  then show ?thesis using onCacheChange_creations[of e fl cache p] by (simp split: if_splits)
next
  case (VaultDelete e f)
  then show ?thesis using onVaultDelete_creations[of e f p] by (simp split: if_splits)
next
  case (VaultRename e f old)
  then show ?thesis using onVaultRename_creations[of e f old p] by (simp split: if_splits)
next
  case (Update e)
  then show ?thesis using updateTrackedFiles_creations[of e p] by (simp split: if_splits)
qed

text \<open>
  Over a run of events, the only notes created are daily notes, for events whose lookup
  gave no daily note, and none is created when the setting is off.
\<close>

lemma run_creations:
  "automaticallyCreateDailyNote (settings (fst (run evs p))) =
     automaticallyCreateDailyNote (settings p)
   \<and> set (creations (snd (run evs p))) \<subseteq>
       (if automaticallyCreateDailyNote (settings p)
        then {path (createdDailyNote (env_of ev)) | ev.
                ev \<in> set evs \<and> (\<forall>dn. dailyNoteLookup (env_of ev) \<noteq> Inr (Some dn))}
        else {})"
proof (induction evs arbitrary: p)
  case Nil
  then show ?case by simp
next
  case (Cons ev evs)
  obtain out p1 fx where h: "handle ev p = (out, p1, fx)" by (cases "handle ev p") auto
  with handle_creations[of ev p]
  have b: "automaticallyCreateDailyNote (settings p1) = automaticallyCreateDailyNote (settings p)"
    and c: "set (creations fx) \<subseteq>
       (if automaticallyCreateDailyNote (settings p)
           \<and> (\<forall>dn. dailyNoteLookup (env_of ev) \<noteq> Inr (Some dn))
        then {path (createdDailyNote (env_of ev))} else {})"
    by simp_all
  obtain p2 fx2 where r: "run evs p1 = (p2, fx2)" by (cases "run evs p1") auto
  with Cons.IH[of p1] b
  have b2: "automaticallyCreateDailyNote (settings p2) = automaticallyCreateDailyNote (settings p)"
    and c2: "set (creations fx2) \<subseteq>
       (if automaticallyCreateDailyNote (settings p)
        then {path (createdDailyNote (env_of ev)) | ev.
                ev \<in> set evs \<and> (\<forall>dn. dailyNoteLookup (env_of ev) \<noteq> Inr (Some dn))}
        else {})"
    by simp_all
  have "run (ev # evs) p = (p2, fx @ fx2)" using h r by simp
  moreover have "set (creations (fx @ fx2)) \<subseteq>
       (if automaticallyCreateDailyNote (settings p)
        then {path (createdDailyNote (env_of ev')) | ev'.
                ev' \<in> set (ev # evs) \<and> (\<forall>dn. dailyNoteLookup (env_of ev') \<noteq> Inr (Some dn))}
        else {})"
  proof (cases "automaticallyCreateDailyNote (settings p)")
    case False
    with c c2 show ?thesis by simp
  next
    case True
    have "set (creations fx) \<subseteq> {path (createdDailyNote (env_of ev')) | ev'.
                ev' \<in> set (ev # evs) \<and> (\<forall>dn. dailyNoteLookup (env_of ev') \<noteq> Inr (Some dn))}"
      using c True by (auto split: if_splits)
    moreover have "set (creations fx2) \<subseteq> {path (createdDailyNote (env_of ev')) | ev'.
                ev' \<in> set (ev # evs) \<and> (\<forall>dn. dailyNoteLookup (env_of ev') \<noteq> Inr (Some dn))}"
      using c2 True by auto
    ultimately show ?thesis using True by simp
  qed
  ultimately show ?case using b2 by simp
qed

lemma suffix_backupPath: "suffix ''-BACKUP.md'' (backupPath e)"
  unfolding backupPath_def by (metis append.assoc suffixI)

text \<open>
  Claim C5, as amended. In a run that finds today's daily note while \<^verbatim>\<open>hasBeenBackedUp\<close>
  is false, exactly one copy is made, of the daily note, to a path that ends in
  \<^verbatim>\<open>-BACKUP.md\<close>; no note is created in that run; the flag is true afterwards, and stays
  true through every later run of events, none of which makes a copy. The only other file
  the plugin creates is a daily note, in a run that found no daily note for today, and
  only with the setting \<^verbatim>\<open>automaticallyCreateDailyNote\<close> on.
\<close>

theorem backup_made_once:
  assumes "dailyNoteLookup e = Inr (Some dn)" and "\<not> hasBeenBackedUp (settings p)"
  shows "copies (snd (snd (updateTrackedFiles e p))) = [(path dn, backupPath e)]
       \<and> suffix ''-BACKUP.md'' (backupPath e)
       \<and> creations (snd (snd (updateTrackedFiles e p))) = []
       \<and> hasBeenBackedUp (settings (fst (snd (updateTrackedFiles e p))))
       \<and> hasBeenBackedUp (settings (fst (run evs (fst (snd (updateTrackedFiles e p))))))
       \<and> copies (snd (run evs (fst (snd (updateTrackedFiles e p))))) = []
       \<and> set (creations (snd (run evs (fst (snd (updateTrackedFiles e p)))))) \<subseteq>
           {path (createdDailyNote (env_of ev)) | ev.
              ev \<in> set evs \<and> (\<forall>dn. dailyNoteLookup (env_of ev) \<noteq> Inr (Some dn))}
       \<and> (\<not> automaticallyCreateDailyNote (settings p)
            \<longrightarrow> creations (snd (run evs (fst (snd (updateTrackedFiles e p))))) = [])"
proof -
  let ?p1 = "fst (snd (updateTrackedFiles e p))"
  have c: "copies (snd (snd (updateTrackedFiles e p))) = [(path dn, backupPath e)]"
    using assms by (simp add: copies_updateTrackedFiles copies_resolveDailyNote)
  have n: "creations (snd (snd (updateTrackedFiles e p))) = []"
    using assms by (simp add: creations_updateTrackedFiles creations_resolveDailyNote)
  have b: "hasBeenBackedUp (settings ?p1)"
    using assms by (simp add: updateTrackedFiles_plugin resolveDailyNote_plugin)
  have a: "automaticallyCreateDailyNote (settings ?p1) = automaticallyCreateDailyNote (settings p)"
    using updateTrackedFiles_creations[of e p] by simp
  have r: "set (creations (snd (run evs ?p1))) \<subseteq>
       (if automaticallyCreateDailyNote (settings p)
        then {path (createdDailyNote (env_of ev)) | ev.
                ev \<in> set evs \<and> (\<forall>dn. dailyNoteLookup (env_of ev) \<noteq> Inr (Some dn))}
        else {})"
    using run_creations[of evs ?p1] a by simp
  have r1: "set (creations (snd (run evs ?p1))) \<subseteq>
           {path (createdDailyNote (env_of ev)) | ev.
              ev \<in> set evs \<and> (\<forall>dn. dailyNoteLookup (env_of ev) \<noteq> Inr (Some dn))}"
    using r by (auto split: if_splits)
  have r2: "creations (snd (run evs ?p1)) = []" if "\<not> automaticallyCreateDailyNote (settings p)"
    using r that by simp
  show ?thesis using c n b run_backed_up[OF b, of evs] r1 r2 suffix_backupPath by blast
qed

theorem backup_made_once_witness:
  "dailyNoteLookup example_env = Inr (Some daily_note)
   \<and> \<not> hasBeenBackedUp (settings ((example_plugin [])\<lparr>settings := example_settings\<lparr>hasBeenBackedUp := False\<rparr>\<rparr>))
   \<and> \<not> automaticallyCreateDailyNote
         (settings ((example_plugin [])\<lparr>settings := example_settings\<lparr>hasBeenBackedUp := False\<rparr>\<rparr>))
   \<and> copies (snd (snd (updateTrackedFiles example_env
        ((example_plugin [])\<lparr>settings := example_settings\<lparr>hasBeenBackedUp := False\<rparr>\<rparr>)))) =
        [(''Daily/2024-01-02.md'', backupPath example_env)]
   \<and> copies (snd (run [CacheChange example_env note_A plain_cache,
                        Update (example_env\<lparr>dailyNoteLookup := Inr None\<rparr>)]
        (fst (snd (updateTrackedFiles example_env
        ((example_plugin [])\<lparr>settings := example_settings\<lparr>hasBeenBackedUp := False\<rparr>\<rparr>)))))) = []
   \<and> creations (snd (run [CacheChange example_env note_A plain_cache,
                           Update (example_env\<lparr>dailyNoteLookup := Inr None\<rparr>)]
        (fst (snd (updateTrackedFiles example_env
        ((example_plugin [])\<lparr>settings := example_settings\<lparr>hasBeenBackedUp := False\<rparr>\<rparr>)))))) = []"
proof -
  let ?p = "(example_plugin [])\<lparr>settings := example_settings\<lparr>hasBeenBackedUp := False\<rparr>\<rparr>"
  have h1: "dailyNoteLookup example_env = Inr (Some daily_note)" by (simp add: example_env_def)
  have h2: "\<not> hasBeenBackedUp (settings ?p)" by simp
  have h3: "\<not> automaticallyCreateDailyNote (settings ?p)" by (simp add: example_settings_def)
  have v: "path daily_note = ''Daily/2024-01-02.md''"
    by (simp add: daily_note_def)
  show ?thesis
    using backup_made_once[OF h1 h2, of "[CacheChange example_env note_A plain_cache,
            Update (example_env\<lparr>dailyNoteLookup := Inr None\<rparr>)]"]
          h1 h2 h3
    unfolding v by blast
qed

text \<open>
  The claim as first stated fails: the backup is not the only file the plugin creates.
  With \<^verbatim>\<open>automaticallyCreateDailyNote\<close> on, a run that finds no daily note creates one.
\<close>

theorem daily_note_created_counterexample:
  "dailyNoteLookup example_env = Inr (Some daily_note)
   \<and> creations (snd (run [Update example_env, Update (example_env\<lparr>dailyNoteLookup := Inr None\<rparr>)]
        ((example_plugin [])\<lparr>settings := example_settings
            \<lparr>hasBeenBackedUp := False, automaticallyCreateDailyNote := True\<rparr>\<rparr>))) =
        [''Daily/2024-01-02.md'']
   \<and> map fst (copies (snd (run [Update example_env, Update (example_env\<lparr>dailyNoteLookup := Inr None\<rparr>)]
        ((example_plugin [])\<lparr>settings := example_settings
            \<lparr>hasBeenBackedUp := False, automaticallyCreateDailyNote := True\<rparr>\<rparr>)))) =
        [''Daily/2024-01-02.md'']"
  by (simp add: updateTrackedFiles_def resolveDailyNote_def writeList_def Let_def vault_defs
        saveSettings_def displayNotice_def tracked_def getFormattedOutput_def js_replace_def
        spliceEntries_def js_splice_def backupPath_def)

section \<open>The first occurrence of a token\<close>

lemma indexOf_None_iff: "indexOf tok s = None \<longleftrightarrow> \<not> sublist tok s"
  by (induction s) (auto simp: sublist_Cons_right)

lemma not_sublist_butlast: "tok \<noteq> [] \<Longrightarrow> \<not> sublist tok (butlast tok)"
proof (cases tok rule: rev_cases)
  case Nil
  assume "tok \<noteq> []"
  with Nil show ?thesis by simp
next
  case (snoc ys y)
  have "\<not> sublist (ys @ [y]) ys"
  proof
    assume "sublist (ys @ [y]) ys"
    then have "length (ys @ [y]) \<le> length ys" by (rule sublist_length_le)
    then show False by simp
  qed
  with snoc show ?thesis by simp
qed

text \<open>The offset found is that of the leftmost occurrence, and the other way round.\<close>

lemma indexOf_leftmost:
  "tok \<noteq> [] \<Longrightarrow> \<not> sublist tok (pre @ butlast tok) \<Longrightarrow>
     indexOf tok (pre @ tok @ post) = Some (length pre)"
proof (induction pre)
  case Nil
  then show ?case by (cases tok) auto
next
  case (Cons c pre)
  have "\<not> prefix tok (c # pre @ tok @ post)"
  proof
    assume pf: "prefix tok (c # pre @ tok @ post)"
    have "length tok \<le> length (c # pre @ butlast tok)" by simp
    moreover have "c # pre @ tok @ post = (c # pre @ butlast tok) @ (last tok # post)"
      using Cons.prems(1) by simp
    ultimately have "prefix tok (c # pre @ butlast tok)"
      using pf by (metis prefix_length_prefix prefixI)
    then have "sublist tok ((c # pre) @ butlast tok)" by (simp add: prefix_imp_sublist)
    with Cons.prems(2) show False by simp
  qed
  moreover have "\<not> sublist tok (pre @ butlast tok)"
    using Cons.prems(2) by (simp add: sublist_Cons_right)
  ultimately show ?case using Cons.IH[OF Cons.prems(1)] by simp
qed

lemma indexOf_Some_split:
  "tok \<noteq> [] \<Longrightarrow> indexOf tok s = Some i \<Longrightarrow>
     \<exists>pre post. s = pre @ tok @ post \<and> length pre = i \<and> \<not> sublist tok (pre @ butlast tok)"
proof (induction s arbitrary: i)
  case Nil
  then show ?case by simp
next
  case (Cons c cs)
  show ?case
  proof (cases "prefix tok (c # cs)")
    case True
    then obtain post where "c # cs = tok @ post" by (auto simp: prefix_def)
    moreover have "i = 0" using True Cons.prems(2) by simp
    ultimately show ?thesis using not_sublist_butlast[OF Cons.prems(1)]
      by (intro exI[of _ "[]"] exI[of _ post]) simp
  next
    case False
    then obtain j where j: "indexOf tok cs = Some j" "i = Suc j"
      using Cons.prems(2) by auto
    from Cons.IH[OF Cons.prems(1) j(1)] obtain pre post where
      s: "cs = pre @ tok @ post" "length pre = j" "\<not> sublist tok (pre @ butlast tok)" by blast
    have "\<not> prefix tok (c # pre @ butlast tok)"
    proof
      assume "prefix tok (c # pre @ butlast tok)"
      moreover have "prefix (c # pre @ butlast tok) (c # cs)"
        using s(1) Cons.prems(1)
        by (metis Cons_prefix_Cons append.assoc append_butlast_last_id prefixI same_prefix_prefix)
      ultimately show False using False prefix_order.trans by blast
    qed
    then have "\<not> sublist tok ((c # pre) @ butlast tok)"
      using s(3) by (simp add: sublist_Cons_right)
    then show ?thesis using s j
      by (intro exI[of _ "c # pre"] exI[of _ post]) simp
  qed
qed

text \<open>
  A replacement text without a dollar sign stands for itself.
\<close>

lemma getSubstitution_plain:
  "CHR ''$'' \<notin> set v \<Longrightarrow> getSubstitution matched str pos v = v"
  by (induction matched str pos v rule: getSubstitution.induct) auto

text \<open>
  \<^verbatim>\<open>replace\<close> with a string pattern replaces the first occurrence and copies the rest; what
  it puts in is the replacement text itself when that has no dollar sign.
\<close>

lemma js_replace_first_replaced:
  assumes "tok \<noteq> []"
  shows "\<exists>w. first_replaced tok w a (js_replace tok v a) \<and> (CHR ''$'' \<notin> set v \<longrightarrow> w = v)"
proof (cases "indexOf tok a")
  case None
  then have "js_replace tok v a = a" by (simp add: js_replace_def)
  moreover have "\<not> sublist tok a" using None by (simp add: indexOf_None_iff)
  ultimately have "first_replaced tok v a (js_replace tok v a)" by (simp add: first_replaced.absent)
  then show ?thesis by blast
next
  case (Some i)
  from indexOf_Some_split[OF assms Some] obtain pre post where
    s: "a = pre @ tok @ post" "length pre = i" "\<not> sublist tok (pre @ butlast tok)" by blast
  let ?w = "getSubstitution tok a i v"
  have "js_replace tok v a = pre @ ?w @ post"
    using Some s by (simp add: js_replace_def)
  then have "first_replaced tok ?w a (js_replace tok v a)"
    using first_replaced.leftmost[OF s(3), of ?w post] s by simp
  moreover have "CHR ''$'' \<notin> set v \<longrightarrow> ?w = v" by (simp add: getSubstitution_plain)
  ultimately show ?thesis by blast
qed

lemma first_replaced_unique: "first_replaced tok w a b \<Longrightarrow> first_replaced tok w a b' \<Longrightarrow> tok \<noteq> [] \<Longrightarrow> b = b'"
proof (induction rule: first_replaced.induct)
  case (absent a)
  from absent(2) show ?case
  proof (cases rule: first_replaced.cases)
    case absent
    then show ?thesis by simp
  next
    case (leftmost pre post)
    with absent(1) show ?thesis by simp
  qed
next
  case (leftmost pre post)
  from leftmost(2) show ?case
  proof (cases rule: first_replaced.cases)
    case absent
    then show ?thesis by simp
  next
    case l2: (leftmost pre' post')
    have "indexOf tok (pre @ tok @ post) = Some (length pre)"
      using indexOf_leftmost[OF leftmost(3) leftmost(1)] .
    moreover have "indexOf tok (pre' @ tok @ post') = Some (length pre')"
      using indexOf_leftmost[OF leftmost(3) l2(3)] .
    ultimately have "length pre = length pre'" using l2(1) by simp
    with l2(1) have "pre = pre'" "post = post'" by simp_all
    with l2(2) show ?thesis by simp
  qed
qed

text \<open>
  Occurrences of tokens. A token here starts with two opening brackets and has no other
  opening bracket. Two occurrences of such tokens in one text start at the same place or
  do not overlap.
\<close>

lemma nth_in_middle: "k < length t \<Longrightarrow> (p @ t @ q) ! (length p + k) = t ! k"
  by (simp add: nth_append)

lemma tokens_apart_half:
  assumes t: "t = CHR ''['' # CHR ''['' # w" "w \<noteq> []" "CHR ''['' \<notin> set w"
      and t': "t' = CHR ''['' # CHR ''['' # w'"
      and eq: "p @ t @ q = r @ t' @ u"
      and le: "length p < length r" and lt: "length r < length p + length t"
  shows False
proof -
  define d where "d = length r - length p"
  have d: "length r = length p + d" "0 < d" "d < length t" using le lt by (simp_all add: d_def)
  have "(p @ t @ q) ! (length p + d) = t ! d" using d(3) by (rule nth_in_middle)
  moreover have "(r @ t' @ u) ! (length r + 0) = t' ! 0" by (rule nth_in_middle) (simp add: t')
  ultimately have td: "t ! d = CHR ''[''" using eq d(1) by (simp add: t')
  have "d = 1"
  proof (rule ccontr)
    assume "d \<noteq> 1"
    with d(2) have "2 \<le> d" by simp
    then have "t ! d = w ! (d - 2)" using t(1) by (simp add: nth_Cons' numeral_2_eq_2)
    moreover have "d - 2 < length w" using d(3) \<open>2 \<le> d\<close> t(1) by simp
    ultimately have "t ! d \<in> set w" by simp
    with td t(3) show False by simp
  qed
  have "(p @ t @ q) ! (length p + 2) = t ! 2" by (rule nth_in_middle) (use t in simp)
  moreover have "(r @ t' @ u) ! (length r + 1) = t' ! 1" by (rule nth_in_middle) (simp add: t')
  ultimately have "t ! 2 = t' ! 1" using eq d(1) \<open>d = 1\<close> by simp
  then have "t ! 2 = CHR ''[''" by (simp add: t')
  moreover have "t ! 2 = w ! 0" using t(1) by (simp add: numeral_2_eq_2)
  moreover have "w ! 0 \<in> set w" using t(2) by simp
  ultimately show False using t(3) by simp
qed

lemma tokens_apart:
  assumes t: "t = CHR ''['' # CHR ''['' # w" "w \<noteq> []" "CHR ''['' \<notin> set w"
      and t': "t' = CHR ''['' # CHR ''['' # w'" "w' \<noteq> []" "CHR ''['' \<notin> set w'"
      and eq: "p @ t @ q = r @ t' @ u"
  shows "length p = length r \<or> length p + length t \<le> length r \<or> length r + length t' \<le> length p"
proof (rule ccontr)
  assume n: "\<not> ?thesis"
  show False
  proof (cases "length p < length r")
    case True
    with n show False using tokens_apart_half[OF t t'(1) eq True] by simp
  next
    case False
    with n have "length r < length p" "length p < length r + length t'" by simp_all
    then show False using tokens_apart_half[OF t' t(1) eq[symmetric]] by simp
  qed
qed

lemma append_split_le:
  "xs @ ys = us @ vs \<Longrightarrow> length xs \<le> length us \<Longrightarrow> \<exists>zs. us = xs @ zs \<and> ys = zs @ vs"
  by (auto simp: append_eq_append_conv2)

lemma recognized_shape:
  "t \<in> set recognized \<Longrightarrow> \<exists>w. t = CHR ''['' # CHR ''['' # w \<and> w \<noteq> [] \<and> CHR ''['' \<notin> set w"
  by (auto simp: recognized_def)

lemma recognized_no_prefix:
  "t \<in> set recognized \<Longrightarrow> t' \<in> set recognized \<Longrightarrow> t \<noteq> t' \<Longrightarrow> \<not> prefix t t'"
  by (auto simp: recognized_def)

lemma recognized_nonempty: "t \<in> set recognized \<Longrightarrow> t \<noteq> []"
  by (auto simp: recognized_def)

text \<open>Occurrences of two different recognized tokens never overlap.\<close>

lemma recognized_apart:
  assumes "t \<in> set recognized" and "t' \<in> set recognized" and "t \<noteq> t'"
      and eq: "p @ t @ q = r @ t' @ u"
  shows "length p + length t \<le> length r \<or> length r + length t' \<le> length p"
proof -
  obtain w where w: "t = CHR ''['' # CHR ''['' # w" "w \<noteq> []" "CHR ''['' \<notin> set w"
    using recognized_shape[OF assms(1)] by blast
  obtain w' where w': "t' = CHR ''['' # CHR ''['' # w'" "w' \<noteq> []" "CHR ''['' \<notin> set w'"
    using recognized_shape[OF assms(2)] by blast
  have "length p \<noteq> length r"
  proof
    assume "length p = length r"
    with eq have "t @ q = t' @ u" by simp
    then have "prefix t t' \<or> prefix t' t"
      by (metis append_eq_append_conv2 prefixI)
    then show False
      using recognized_no_prefix[OF assms(1,2,3)] recognized_no_prefix[OF assms(2,1)] assms(3)
      by auto
  qed
  with tokens_apart[OF w w' eq] show ?thesis by simp
qed

text \<open>
  Replacing the first occurrence of a token leaves a later occurrence of it in place,
  and replacing another token leaves every occurrence in place.
\<close>

lemma replace_own_keeps_second:
  assumes ne: "tok \<noteq> []" and s: "s = a @ tok @ b @ tok @ c"
  shows "sublist tok (js_replace tok v s)"
proof -
  have "sublist tok s" unfolding s by (rule sublist_appendI)
  then obtain i where i: "indexOf tok s = Some i"
    using indexOf_None_iff[of tok s] by (cases "indexOf tok s") auto
  from indexOf_Some_split[OF ne i] obtain pre post where
    sp: "s = pre @ tok @ post" "length pre = i" "\<not> sublist tok (pre @ butlast tok)" by blast
  have le: "length pre \<le> length a"
  proof (rule ccontr)
    assume "\<not> length pre \<le> length a"
    then have l: "length (a @ tok) \<le> length (pre @ butlast tok)" using ne by simp
    have t: "tok @ post = butlast tok @ (last tok # post)"
      using ne by (metis append.assoc append_Cons append_Nil append_butlast_last_id)
    have "(a @ tok) @ (b @ tok @ c) = pre @ (tok @ post)" using s sp(1) by simp
    also have "\<dots> = pre @ (butlast tok @ (last tok # post))" by (simp only: t)
    also have "\<dots> = (pre @ butlast tok) @ (last tok # post)" by simp
    finally have "(a @ tok) @ (b @ tok @ c) = (pre @ butlast tok) @ (last tok # post)" .
    from append_split_le[OF this l] obtain zs where "pre @ butlast tok = (a @ tok) @ zs" by blast
    then have "sublist tok (pre @ butlast tok)" by (metis append.assoc sublist_appendI)
    with sp(3) show False by simp
  qed
  have "(pre @ tok) @ post = (a @ tok) @ (b @ tok @ c)" using s sp(1) by simp
  moreover have "length (pre @ tok) \<le> length (a @ tok)" using le by simp
  ultimately obtain zs where "post = zs @ b @ tok @ c"
    using append_split_le[of "pre @ tok" post "a @ tok" "b @ tok @ c"] by blast
  then have "sublist tok post" by (metis append.assoc sublist_appendI)
  then have "sublist tok (pre @ getSubstitution tok s i v @ post)"
    by (metis append.assoc sublist_append)
  then show ?thesis using i sp by (simp add: js_replace_def)
qed

lemma replace_other_keeps_one:
  assumes ap: "\<And>p q r u. p @ tok @ q = r @ tok' @ u \<Longrightarrow>
                 length p + length tok \<le> length r \<or> length r + length tok' \<le> length p"
      and ne: "tok' \<noteq> []" and sub: "sublist tok s"
  shows "sublist tok (js_replace tok' v s)"
proof (cases "indexOf tok' s")
  case None
  then show ?thesis using sub by (simp add: js_replace_def)
next
  case (Some i)
  from indexOf_Some_split[OF ne Some] obtain pre post where
    sp: "s = pre @ tok' @ post" "length pre = i" by blast
  let ?w = "getSubstitution tok' s i v"
  have r: "js_replace tok' v s = pre @ ?w @ post" using Some sp by (simp add: js_replace_def)
  from sub obtain x y where xy: "s = x @ tok @ y" by (auto simp: sublist_def)
  from ap[of x y pre post] xy sp(1)
  consider "length x + length tok \<le> length pre" | "length pre + length tok' \<le> length x" by auto
  then show ?thesis
  proof cases
    case 1
    have "(x @ tok) @ y = pre @ (tok' @ post)" using xy sp(1) by simp
    from append_split_le[OF this] 1 obtain zs where "pre = (x @ tok) @ zs" by auto
    then have "sublist tok pre" by (metis append.assoc sublist_appendI)
    then show ?thesis unfolding r by (metis sublist_append)
  next
    case 2
    have "(pre @ tok') @ post = x @ (tok @ y)" using xy sp(1) by simp
    from append_split_le[OF this] 2 obtain zs where "post = zs @ tok @ y" by auto
    then have "sublist tok post" by (metis sublist_appendI)
    then show ?thesis unfolding r by (metis append.assoc sublist_append)
  qed
qed

lemma replace_other_keeps_twice:
  assumes ap: "\<And>p q r u. p @ tok @ q = r @ tok' @ u \<Longrightarrow>
                 length p + length tok \<le> length r \<or> length r + length tok' \<le> length p"
      and ne: "tok' \<noteq> []" and s: "s = a @ tok @ b @ tok @ c"
  shows "\<exists>a' b' c'. js_replace tok' v s = a' @ tok @ b' @ tok @ c'"
proof (cases "indexOf tok' s")
  case None
  then show ?thesis using s by (auto simp: js_replace_def)
next
  case (Some i)
  from indexOf_Some_split[OF ne Some] obtain pre post where
    sp: "s = pre @ tok' @ post" "length pre = i" by blast
  let ?w = "getSubstitution tok' s i v"
  have r: "js_replace tok' v s = pre @ ?w @ post" using Some sp by (simp add: js_replace_def)
  have e1: "a @ tok @ (b @ tok @ c) = pre @ tok' @ post" using s sp(1) by simp
  have e2: "(a @ tok @ b) @ tok @ c = pre @ tok' @ post" using s sp(1) by simp
  show ?thesis
  proof (cases "length (a @ tok @ b) + length tok \<le> length pre")
    case True
    have "(a @ tok @ b @ tok) @ c = pre @ (tok' @ post)" using s sp(1) by simp
    from append_split_le[OF this] True obtain zs where "pre = (a @ tok @ b @ tok) @ zs" by auto
    then have "js_replace tok' v s = a @ tok @ b @ tok @ (zs @ ?w @ post)" unfolding r by simp
    then show ?thesis by blast
  next
    case False
    with ap[OF e2] have b2: "length pre + length tok' \<le> length (a @ tok @ b)" by simp
    have "(pre @ tok') @ post = (a @ tok @ b) @ (tok @ c)" using s sp(1) by simp
    from append_split_le[OF this] b2 obtain z2 where
      z2: "a @ tok @ b = (pre @ tok') @ z2" "post = z2 @ tok @ c" by auto
    show ?thesis
    proof (cases "length pre + length tok' \<le> length a")
      case True
      have "(pre @ tok') @ post = a @ (tok @ b @ tok @ c)" using s sp(1) by simp
      from append_split_le[OF this] True obtain zs where "post = zs @ tok @ b @ tok @ c" by auto
      then have "js_replace tok' v s = (pre @ ?w @ zs) @ tok @ b @ tok @ c" unfolding r by simp
      then show ?thesis by blast
    next
      case False
      with ap[OF e1] have "length a + length tok \<le> length pre" by simp
      moreover have "(a @ tok) @ (b @ tok @ c) = pre @ (tok' @ post)" using s sp(1) by simp
      ultimately obtain z1 where "pre = (a @ tok) @ z1"
        using append_split_le[of "a @ tok" "b @ tok @ c" pre "tok' @ post"] by auto
      then have "js_replace tok' v s = a @ tok @ (z1 @ ?w @ z2) @ tok @ c"
        unfolding r using z2(2) by simp
      then show ?thesis by blast
    qed
  qed
qed

lemma recognized_keeps_one:
  assumes "tok \<in> set recognized" and "tok' \<in> set recognized" and "tok \<noteq> tok'"
      and "sublist tok s"
  shows "sublist tok (js_replace tok' v s)"
  using replace_other_keeps_one[OF recognized_apart[OF assms(1,2,3)] recognized_nonempty[OF assms(2)]
          assms(4)] .

lemma recognized_keeps_twice:
  assumes "tok \<in> set recognized" and "tok' \<in> set recognized" and "tok \<noteq> tok'"
      and "s = a @ tok @ b @ tok @ c"
  shows "\<exists>a' b' c'. js_replace tok' v s = a' @ tok @ b' @ tok @ c'"
  using replace_other_keeps_twice[OF recognized_apart[OF assms(1,2,3)] recognized_nonempty[OF assms(2)]
          assms(4)] .

text \<open>
  A token that the template has twice is still in the text after the four replacements.
\<close>

lemma chain_keeps_token_generic:
  assumes k: "k1 \<in> set recognized" "k2 \<in> set recognized" "k3 \<in> set recognized"
        "k4 \<in> set recognized"
      and d: "k1 \<noteq> k2" "k1 \<noteq> k3" "k1 \<noteq> k4" "k2 \<noteq> k3" "k2 \<noteq> k4" "k3 \<noteq> k4"
      and tok: "tok = k1 \<or> tok = k2 \<or> tok = k3 \<or> tok = k4"
      and t: "t0 = a @ tok @ b @ tok @ c"
  shows "sublist tok (js_replace k4 v4 (js_replace k3 v3 (js_replace k2 v2 (js_replace k1 v1 t0))))"
proof -
  let ?t1 = "js_replace k1 v1 t0"
  let ?t2 = "js_replace k2 v2 ?t1"
  let ?t3 = "js_replace k3 v3 ?t2"
  from tok consider "tok = k1" | "tok = k2" | "tok = k3" | "tok = k4" by blast
  then show ?thesis
  proof cases
    case 1
    have "sublist k1 ?t1"
      using replace_own_keeps_second[OF recognized_nonempty[OF k(1)], of t0 a b c v1] t 1 by simp
    then have "sublist k1 ?t2" using recognized_keeps_one[OF k(1) k(2) d(1)] by blast
    then have "sublist k1 ?t3" using recognized_keeps_one[OF k(1) k(3) d(2)] by blast
    then have "sublist k1 (js_replace k4 v4 ?t3)"
      using recognized_keeps_one[OF k(1) k(4) d(3)] by blast
    with 1 show ?thesis by simp
  next
    case 2
    have t': "t0 = a @ k2 @ b @ k2 @ c" using t 2 by simp
    obtain a1 b1 c1 where "?t1 = a1 @ k2 @ b1 @ k2 @ c1"
      using recognized_keeps_twice[OF k(2) k(1) d(1)[symmetric] t'] by blast
    then have "sublist k2 ?t2"
      using replace_own_keeps_second[OF recognized_nonempty[OF k(2)]] by blast
    then have "sublist k2 ?t3" using recognized_keeps_one[OF k(2) k(3) d(4)] by blast
    then have "sublist k2 (js_replace k4 v4 ?t3)"
      using recognized_keeps_one[OF k(2) k(4) d(5)] by blast
    with 2 show ?thesis by simp
  next
    case 3
    have t': "t0 = a @ k3 @ b @ k3 @ c" using t 3 by simp
    obtain a1 b1 c1 where t1: "?t1 = a1 @ k3 @ b1 @ k3 @ c1"
      using recognized_keeps_twice[OF k(3) k(1) d(2)[symmetric] t'] by blast
    obtain a2 b2 c2 where "?t2 = a2 @ k3 @ b2 @ k3 @ c2"
      using recognized_keeps_twice[OF k(3) k(2) d(4)[symmetric] t1] by blast
    then have "sublist k3 ?t3"
      using replace_own_keeps_second[OF recognized_nonempty[OF k(3)]] by blast
    then have "sublist k3 (js_replace k4 v4 ?t3)"
      using recognized_keeps_one[OF k(3) k(4) d(6)] by blast
    with 3 show ?thesis by simp
  next
    case 4
    have t': "t0 = a @ k4 @ b @ k4 @ c" using t 4 by simp
    obtain a1 b1 c1 where t1: "?t1 = a1 @ k4 @ b1 @ k4 @ c1"
      using recognized_keeps_twice[OF k(4) k(1) d(3)[symmetric] t'] by blast
    obtain a2 b2 c2 where t2: "?t2 = a2 @ k4 @ b2 @ k4 @ c2"
      using recognized_keeps_twice[OF k(4) k(2) d(5)[symmetric] t1] by blast
    obtain a3 b3 c3 where "?t3 = a3 @ k4 @ b3 @ k4 @ c3"
      using recognized_keeps_twice[OF k(4) k(3) d(6)[symmetric] t2] by blast
    then have "sublist k4 (js_replace k4 v4 ?t3)"
      using replace_own_keeps_second[OF recognized_nonempty[OF k(4)]] by blast
    with 4 show ?thesis by simp
  qed
qed

text \<open>
  A token that the template has twice is still in the text after the four replacements.
\<close>

lemma chain_keeps_token:
  assumes "tok \<in> set recognized" and "t0 = a @ tok @ b @ tok @ c"
  shows "sublist tok (js_replace ''[[ctime]]'' v4 (js_replace ''[[tags]]'' v3
           (js_replace ''[[name]]'' v2 (js_replace ''[[link]]'' v1 t0))))"
proof (rule chain_keeps_token_generic[OF _ _ _ _ _ _ _ _ _ _ _ assms(2)])
  show "tok = ''[[link]]'' \<or> tok = ''[[name]]'' \<or> tok = ''[[tags]]'' \<or> tok = ''[[ctime]]''"
    using assms(1) by (simp add: recognized_def)
qed (simp_all add: recognized_def)

text \<open>
  Claim C3, as amended. For every template and every tracked path that has a file and a
  metadata cache, the rendered line is the template after four replacements in a row, of
  the link token, the name token, the tag-list token and the creation-date token, each
  made on the result of the one before and each replacing the leftmost occurrence of its
  token only, everything else being copied. What is put in is the value itself when the
  value has no dollar sign. In particular a template that has the same recognized token
  twice never has both occurrences substituted: the token is still in the rendered line.
\<close>

theorem getFormattedOutput_replaces_first_occurrences:
  assumes "getAbstractFileByPath e x = Some file" and "getFileCache e (path file) = Some cache"
  shows "(\<exists>w1 w2 w3 w4 r1 r2 r3 r4.
            getFormattedOutput e s dn x = Inr r4
          \<and> first_replaced ''[[link]]'' w1 (outputFormat s) r1
          \<and> first_replaced ''[[name]]'' w2 r1 r2
          \<and> first_replaced ''[[tags]]'' w3 r2 r3
          \<and> first_replaced ''[[ctime]]'' w4 r3 r4
          \<and> (CHR ''$'' \<notin> set (generateMarkdownLink e file dn)
               \<longrightarrow> w1 = generateMarkdownLink e file dn)
          \<and> (CHR ''$'' \<notin> set (basename file) \<longrightarrow> w2 = basename file)
          \<and> (CHR ''$'' \<notin> set (js_join '', '' (map (\<lambda>tag. CHR 0x5C # tag) (c_tags cache)))
               \<longrightarrow> w3 = js_join '', '' (map (\<lambda>tag. CHR 0x5C # tag) (c_tags cache)))
          \<and> (CHR ''$'' \<notin> set (formatDate e (ctime file)) \<longrightarrow> w4 = formatDate e (ctime file)))
       \<and> (tok \<in> set recognized \<and> outputFormat s = a @ tok @ b @ tok @ c
            \<longrightarrow> (\<exists>r. getFormattedOutput e s dn x = Inr r \<and> sublist tok r))"
proof -
  let ?v1 = "generateMarkdownLink e file dn"
  let ?v2 = "basename file"
  let ?v3 = "js_join '', '' (map (\<lambda>tag. CHR 0x5C # tag) (c_tags cache))"
  let ?v4 = "formatDate e (ctime file)"
  let ?r1 = "js_replace ''[[link]]'' ?v1 (outputFormat s)"
  let ?r2 = "js_replace ''[[name]]'' ?v2 ?r1"
  let ?r3 = "js_replace ''[[tags]]'' ?v3 ?r2"
  let ?r4 = "js_replace ''[[ctime]]'' ?v4 ?r3"
  have out: "getFormattedOutput e s dn x = Inr ?r4"
    using assms by (simp add: getFormattedOutput_def)
  obtain w1 where w1: "first_replaced ''[[link]]'' w1 (outputFormat s) ?r1"
      "CHR ''$'' \<notin> set ?v1 \<longrightarrow> w1 = ?v1"
    using js_replace_first_replaced[of "''[[link]]''" "outputFormat s" ?v1] by auto
  obtain w2 where w2: "first_replaced ''[[name]]'' w2 ?r1 ?r2" "CHR ''$'' \<notin> set ?v2 \<longrightarrow> w2 = ?v2"
    using js_replace_first_replaced[of "''[[name]]''" ?r1 ?v2] by auto
  obtain w3 where w3: "first_replaced ''[[tags]]'' w3 ?r2 ?r3" "CHR ''$'' \<notin> set ?v3 \<longrightarrow> w3 = ?v3"
    using js_replace_first_replaced[of "''[[tags]]''" ?r2 ?v3] by auto
  obtain w4 where w4: "first_replaced ''[[ctime]]'' w4 ?r3 ?r4" "CHR ''$'' \<notin> set ?v4 \<longrightarrow> w4 = ?v4"
    using js_replace_first_replaced[of "''[[ctime]]''" ?r3 ?v4] by auto
  have one: "\<exists>w1 w2 w3 w4 r1 r2 r3 r4.
            getFormattedOutput e s dn x = Inr r4
          \<and> first_replaced ''[[link]]'' w1 (outputFormat s) r1
          \<and> first_replaced ''[[name]]'' w2 r1 r2
          \<and> first_replaced ''[[tags]]'' w3 r2 r3
          \<and> first_replaced ''[[ctime]]'' w4 r3 r4
          \<and> (CHR ''$'' \<notin> set ?v1 \<longrightarrow> w1 = ?v1)
          \<and> (CHR ''$'' \<notin> set ?v2 \<longrightarrow> w2 = ?v2)
          \<and> (CHR ''$'' \<notin> set ?v3 \<longrightarrow> w3 = ?v3)
          \<and> (CHR ''$'' \<notin> set ?v4 \<longrightarrow> w4 = ?v4)"
    using out w1 w2 w3 w4 by blast
  have two: "\<exists>r. getFormattedOutput e s dn x = Inr r \<and> sublist tok r"
    if "tok \<in> set recognized" "outputFormat s = a @ tok @ b @ tok @ c"
    using out chain_keeps_token[OF that] by blast
  show ?thesis using one two by blast
qed

theorem getFormattedOutput_replaces_first_occurrences_witness:
  "getAbstractFileByPath example_env ''Notes/A.md'' = Some note_A
   \<and> getFileCache example_env (path note_A) = Some plain_cache
   \<and> ''[[link]]'' \<in> set recognized
   \<and> getFormattedOutput example_env
        (example_settings\<lparr>outputFormat := ''- [[link]] ([[foo]]) [[link]]''\<rparr>)
        ''Daily/2024-01-02.md'' ''Notes/A.md'' = Inr ''- [[A]] ([[foo]]) [[link]]''
   \<and> sublist ''[[link]]'' ''- [[A]] ([[foo]]) [[link]]''
   \<and> (\<exists>r1 r2 r3.
        first_replaced ''[[link]]'' ''[[A]]'' ''- [[link]] ([[foo]]) [[link]]'' r1
      \<and> first_replaced ''[[name]]'' ''A'' r1 r2
      \<and> first_replaced ''[[tags]]'' [] r2 r3
      \<and> first_replaced ''[[ctime]]'' ''1970-01-01'' r3 ''- [[A]] ([[foo]]) [[link]]'')"
proof -
  let ?s = "example_settings\<lparr>outputFormat := ''- [[link]] ([[foo]]) [[link]]''\<rparr>"
  have h1: "getAbstractFileByPath example_env ''Notes/A.md'' = Some note_A"
    by (simp add: example_env_def)
  have h2: "getFileCache example_env (path note_A) = Some plain_cache"
    by (simp add: example_env_def note_A_def)
  have h3: "''[[link]]'' \<in> set recognized"
    by (simp add: recognized_def)
  have h4: "outputFormat ?s = ''- '' @ ''[[link]]'' @ '' ([[foo]]) '' @ ''[[link]]'' @ []"
    by simp
  have out: "getFormattedOutput example_env ?s ''Daily/2024-01-02.md'' ''Notes/A.md'' =
               Inr ''- [[A]] ([[foo]]) [[link]]''"
    by (simp add: getFormattedOutput_def js_replace_def vault_defs)
  have v: "generateMarkdownLink example_env note_A ''Daily/2024-01-02.md'' = ''[[A]]''"
      "basename note_A = ''A''"
      "js_join '', '' (map (\<lambda>tag. CHR 0x5C # tag) (c_tags plain_cache)) = []"
      "formatDate example_env (ctime note_A) = ''1970-01-01''"
    by (simp_all add: vault_defs)
  have t: "(\<exists>w1 w2 w3 w4 r1 r2 r3 r4.
              Inr ''- [[A]] ([[foo]]) [[link]]'' = (Inr r4 :: error + string)
            \<and> first_replaced ''[[link]]'' w1 (outputFormat ?s) r1
            \<and> first_replaced ''[[name]]'' w2 r1 r2
            \<and> first_replaced ''[[tags]]'' w3 r2 r3
            \<and> first_replaced ''[[ctime]]'' w4 r3 r4
            \<and> (CHR ''$'' \<notin> set ''[[A]]'' \<longrightarrow> w1 = ''[[A]]'')
            \<and> (CHR ''$'' \<notin> set ''A'' \<longrightarrow> w2 = ''A'')
            \<and> (CHR ''$'' \<notin> set [] \<longrightarrow> w3 = [])
            \<and> (CHR ''$'' \<notin> set ''1970-01-01'' \<longrightarrow> w4 = ''1970-01-01''))
         \<and> (''[[link]]'' \<in> set recognized
              \<and> outputFormat ?s = ''- '' @ ''[[link]]'' @ '' ([[foo]]) '' @ ''[[link]]'' @ []
              \<longrightarrow> (\<exists>r. Inr ''- [[A]] ([[foo]]) [[link]]'' = (Inr r :: error + string)
                       \<and> sublist ''[[link]]'' r))"
    using getFormattedOutput_replaces_first_occurrences[OF h1 h2, of ?s "''Daily/2024-01-02.md''"
            "''[[link]]''" "''- ''" "'' ([[foo]]) ''" "[]"]
    unfolding v out .
  from t h3 h4 have s: "sublist ''[[link]]'' ''- [[A]] ([[foo]]) [[link]]''"
    by blast
  from t have c: "\<exists>r1 r2 r3.
        first_replaced ''[[link]]'' ''[[A]]'' ''- [[link]] ([[foo]]) [[link]]'' r1
      \<and> first_replaced ''[[name]]'' ''A'' r1 r2
      \<and> first_replaced ''[[tags]]'' [] r2 r3
      \<and> first_replaced ''[[ctime]]'' ''1970-01-01'' r3 ''- [[A]] ([[foo]]) [[link]]''"
    by simp blast
  show ?thesis using h1 h2 h3 out s c by blast
qed

text \<open>
  The claim as first stated fails in three ways. Of two occurrences of the name token the
  second is left in the rendered line. A base name with the dollar pattern for the matched
  text is not put in as it is: the pattern is expanded. And a file that has no metadata
  cache is not rendered at all.
\<close>

theorem getFormattedOutput_twice_counterexample:
  "getAbstractFileByPath example_env ''Notes/A.md'' = Some note_A
   \<and> getFormattedOutput example_env (example_settings\<lparr>outputFormat := ''[[name]] and [[name]]''\<rparr>)
        ''Daily/2024-01-02.md'' ''Notes/A.md'' = Inr ''A and [[name]]''
   \<and> getFormattedOutput example_env (example_settings\<lparr>outputFormat := ''[[name]] and [[name]]''\<rparr>)
        ''Daily/2024-01-02.md'' ''Notes/A.md'' \<noteq> Inr ''A and A''
   \<and> getFormattedOutput
        (example_env\<lparr>getAbstractFileByPath := (\<lambda>p. Some (note_A\<lparr>basename := ''A$&B''\<rparr>))\<rparr>)
        (example_settings\<lparr>outputFormat := ''- [[name]]''\<rparr>)
        ''Daily/2024-01-02.md'' ''Notes/A.md'' = Inr ''- A[[name]]B''
   \<and> getFormattedOutput (example_env\<lparr>getFileCache := (\<lambda>p. None)\<rparr>) example_settings
        ''Daily/2024-01-02.md'' ''Notes/A.md'' = Inl TypeError"
  by (simp add: getFormattedOutput_def js_replace_def vault_defs)

section \<open>The lines between two headings\<close>

text \<open>
  What the two splices do, for headings that lie inside the text. After the last heading
  everything to the end is replaced. Before a next heading the line just above that
  heading is kept.
\<close>

lemma js_splice_beyond: "length xs \<le> a \<Longrightarrow> js_splice xs (int a) d items = xs @ items"
proof -
  assume le: "length xs \<le> a"
  then have m: "min (int a) (int (length xs)) = int (length xs)" by simp
  have "min (max d 0) (int (length xs) - int (length xs)) = 0" by simp
  then show ?thesis using le by (simp add: js_splice_def Let_def m)
qed

lemma js_splice_inside:
  assumes "a \<le> length xs"
  shows "js_splice xs (int a) d items = take a xs @ items @ drop (a + nat (min d (int (length xs - a)))) xs"
proof -
  have m: "min (int a) (int (length xs)) = int a" using assms by simp
  have l: "int (length xs) - int a = int (length xs - a)" using assms by simp
  have "nat (int a + min (max d 0) (int (length xs - a))) = a + nat (min d (int (length xs - a)))"
    by (cases "0 \<le> d") (simp_all add: nat_add_distrib min_def max_def)
  then show ?thesis by (simp add: js_splice_def Let_def m l)
qed

lemma spliceEntries_last:
  "spliceEntries content h None entries = take (Suc (h_end_line h)) content @ entries"
proof (cases "Suc (h_end_line h) \<le> length content")
  case True
  have s: "int (h_end_line h) + 1 = int (Suc (h_end_line h))" by simp
  have d: "int (length content) - int (Suc (h_end_line h)) = int (length content - Suc (h_end_line h))"
    using True by simp
  show ?thesis using True
    unfolding spliceEntries_def Let_def option.case s d js_splice_inside[OF True]
    by simp
next
  case False
  have s: "int (h_end_line h) + 1 = int (Suc (h_end_line h))" by simp
  have le: "length content \<le> Suc (h_end_line h)" using False by simp
  show ?thesis
    unfolding spliceEntries_def Let_def option.case s js_splice_beyond[OF le]
    using le by simp
qed

lemma spliceEntries_next:
  assumes "h_end_line h < h_start_line h2" and "h_start_line h2 \<le> length content"
  shows "spliceEntries content h (Some h2) entries =
           take (Suc (h_end_line h)) content @ entries
             @ drop (max (Suc (h_end_line h)) (h_start_line h2 - 1)) content"
proof -
  let ?a = "Suc (h_end_line h)"
  let ?d = "int (h_start_line h2) - 1 - int ?a"
  have a: "?a \<le> length content" using assms by simp
  have s: "int (h_end_line h) + 1 = int ?a" by simp
  have k: "?a + nat (min ?d (int (length content - ?a))) = max ?a (h_start_line h2 - 1)"
  proof (cases "?a \<le> h_start_line h2 - 1")
    case True
    then have "?d = int (h_start_line h2 - 1 - ?a)" by simp
    moreover have "h_start_line h2 - 1 - ?a \<le> length content - ?a" using assms by simp
    ultimately have "nat (min ?d (int (length content - ?a))) = h_start_line h2 - 1 - ?a"
      by (simp only: min_def nat_int of_nat_le_iff if_True)
    with True show ?thesis by simp
  next
    case False
    then have "?d < 0" by simp
    then have "nat (min ?d (int (length content - ?a))) = 0" by simp
    with False show ?thesis by simp
  qed
  have "spliceEntries content h (Some h2) entries =
          take ?a content @ entries @ drop (?a + nat (min ?d (int (length content - ?a)))) content"
    unfolding spliceEntries_def Let_def option.case s js_splice_inside[OF a] ..
  then show ?thesis by (simp only: k)
qed

lemma length_spliceEntries_next:
  assumes "Suc (h_end_line h) < h_start_line h2" and "h_start_line h2 \<le> length content"
  shows "length (spliceEntries content h (Some h2) entries) + (h_start_line h2 - h_end_line h - 1)
           = length content + length entries + 1"
proof -
  have m: "max (Suc (h_end_line h)) (h_start_line h2 - 1) = h_start_line h2 - 1"
    using assms by simp
  have "spliceEntries content h (Some h2) entries =
           take (Suc (h_end_line h)) content @ entries @ drop (h_start_line h2 - 1) content"
    using assms spliceEntries_next[of h h2 content entries] unfolding m by simp
  then show ?thesis using assms by simp
qed

text \<open>
  Claim C1 fails on the code. In the scenario of the specification (the text
  \<^verbatim>\<open># Modified\<close>, \<^verbatim>\<open>old line\<close>, \<^verbatim>\<open># Next\<close>, nothing tracked, then the note \<^verbatim>\<open>Notes/A.md\<close>
  changes), the line between the headings is not replaced: the new entry is put in above
  it and the text grows to four lines.
\<close>

theorem splice_keeps_line_above_next_heading:
  "writes (snd (snd (onCacheChange example_env note_A plain_cache (example_plugin [])))) =
     [(''Daily/2024-01-02.md'',
       js_join [CHR 0x0A] [''# Modified'', ''- [[A]]'', ''old line'', ''# Next''])]
   \<and> spliceEntries [''# Modified'', ''old line'', ''# Next'']
        \<lparr>h_heading = ''Modified'', h_start_line = 0, h_end_line = 0\<rparr>
        (Some \<lparr>h_heading = ''Next'', h_start_line = 2, h_end_line = 2\<rparr>) [''- [[A]]''] =
       [''# Modified'', ''- [[A]]'', ''old line'', ''# Next'']"
  by (simp add: onCacheChange_def vault_defs
     rollover_def shouldPush_def shouldRemove_def cacheContainsIgnoredTag_def pathIsExcluded_def
     noteTitleContainsIgnoredText_def remove_spaces_def is_space_def toLowerCase_def lower_char_def
     js_includes_def match_separator_def strip_slashes_def
     push_at_def remove_at_def updateTrackedFiles_def resolveDailyNote_def writeList_def saveSettings_def
     tracked_def getFormattedOutput_def js_replace_def
     spliceEntries_def js_splice_def displayNotice_def Let_def array_remove_def)

section \<open>What the other handlers keep\<close>

text \<open>
  The push of \<^verbatim>\<open>onCacheChange\<close> is guarded by a membership test, so the array it works on
  stays free of duplicates; only that array is touched.
\<close>

lemma shouldPush_True_fresh: "shouldPush e s file cache xs = Inr True \<Longrightarrow> path file \<notin> set xs"
  by (auto simp: shouldPush_def split: if_splits sum.splits)

lemma arrays_push_at: "arrays (push_at r x p) r' = (if r' = r then arrays p r @ [x] else arrays p r')"
  by (simp add: push_at_def)

lemma arrays_remove_at:
  "arrays (remove_at r x p) r' = (if r' = r then removeAll x (arrays p r) else arrays p r')"
  by (simp add: remove_at_def array_remove_def)

lemma next_ref_push_at [simp]: "next_ref (push_at r x p) = next_ref p"
  by (simp add: push_at_def)

lemma next_ref_remove_at [simp]: "next_ref (remove_at r x p) = next_ref p"
  by (simp add: remove_at_def)

lemma onCacheChange_arrays:
  "\<exists>q. settings q = settings (rollover e p) \<and> next_ref q = next_ref (rollover e p)
     \<and> (\<forall>r'. r' \<noteq> trackedFiles (settings p) \<longrightarrow> arrays q r' = arrays (rollover e p) r')
     \<and> (distinct (arrays (rollover e p) (trackedFiles (settings p)))
          \<longrightarrow> distinct (arrays q (trackedFiles (settings p))))
     \<and> ((\<exists>out. onCacheChange e file cache p = (out, q, []))
        \<or> onCacheChange e file cache p = updateTrackedFiles e q)"
proof (cases "dailyNoteLookup e")
  case (Inl msg)
  then have "onCacheChange e file cache p = (Threw (DailyNotesError msg), rollover e p, [])"
    by (simp add: onCacheChange_def Let_def)
  then show ?thesis by blast
next
  case (Inr dn)
  let ?p1 = "rollover e p"
  let ?r = "trackedFiles (settings p)"
  show ?thesis
  proof (cases "map_option path dn = Some (path file)")
    case True
    with Inr have "onCacheChange e file cache p = (Done, ?p1, [])"
      by (simp add: onCacheChange_def Let_def)
    then show ?thesis by blast
  next
    case False
    show ?thesis
    proof (cases "shouldPush e (settings ?p1) file cache (arrays ?p1 ?r)")
      case (Inl err)
      with Inr False have "onCacheChange e file cache p = (Threw err, ?p1, [])"
        by (auto simp: onCacheChange_def Let_def)
      then show ?thesis by blast
    next
      case push: (Inr b)
      let ?p2 = "if b then push_at ?r (path file) ?p1 else ?p1"
      have s2: "settings ?p2 = settings ?p1" "next_ref ?p2 = next_ref ?p1" by simp_all
      have o2: "\<forall>r'. r' \<noteq> ?r \<longrightarrow> arrays ?p2 r' = arrays ?p1 r'"
        by (simp add: arrays_push_at)
      have d2: "distinct (arrays ?p1 ?r) \<longrightarrow> distinct (arrays ?p2 ?r)"
        using shouldPush_True_fresh[of e "settings ?p1" "file" cache "arrays ?p1 ?r"] push
        by (auto simp: arrays_push_at)
      show ?thesis
      proof (cases "shouldRemove e (settings ?p2) file cache (arrays ?p2 ?r)")
        case (Inl err)
        with Inr False push have "onCacheChange e file cache p = (Threw err, ?p2, [])"
          by (auto simp: onCacheChange_def Let_def)
        with s2 o2 d2 show ?thesis by blast
      next
        case rem: (Inr c)
        let ?p3 = "if c then remove_at ?r (path file) ?p2 else ?p2"
        have s3: "settings ?p3 = settings ?p1" "next_ref ?p3 = next_ref ?p1" by simp_all
        have o3: "\<forall>r'. r' \<noteq> ?r \<longrightarrow> arrays ?p3 r' = arrays ?p1 r'"
          using o2 by (simp add: arrays_remove_at)
        have d3: "distinct (arrays ?p1 ?r) \<longrightarrow> distinct (arrays ?p3 ?r)"
          using d2 by (simp add: arrays_remove_at distinct_removeAll)
        from Inr False push rem have "onCacheChange e file cache p = updateTrackedFiles e ?p3"
          by (auto simp: onCacheChange_def Let_def)
        with s3 o3 d3 show ?thesis by blast
      qed
    qed
  qed
qed

lemma tracked_after_shape:
  assumes "(\<exists>out. h = (out, q, [])) \<or> h = updateTrackedFiles e q"
  shows "tracked (fst (snd h)) = tracked q"
  using assms by auto

text \<open>
  On a new day the handler always ends with no tracked file at all, whatever file
  changed: the settings refer to the new array, and nothing is pushed onto it.
\<close>

lemma onCacheChange_rollover_tracked_empty:
  assumes "wf_plugin p" and "lastTrackedDate (settings p) \<noteq> currentDate e"
  shows "tracked (fst (snd (onCacheChange e file cache p))) = []"
proof -
  obtain q where q: "settings q = settings (rollover e p)"
      "\<forall>r'. r' \<noteq> trackedFiles (settings p) \<longrightarrow> arrays q r' = arrays (rollover e p) r'"
      "(\<exists>out. onCacheChange e file cache p = (out, q, []))
        \<or> onCacheChange e file cache p = updateTrackedFiles e q"
    using onCacheChange_arrays[of e p "file" cache] by blast
  have n: "trackedFiles (settings (rollover e p)) = next_ref p"
    using assms(2) by (simp add: rollover_def new_array_def)
  have "next_ref p \<noteq> trackedFiles (settings p)" using assms(1) by (simp add: wf_plugin_def)
  then have "arrays q (next_ref p) = arrays (rollover e p) (next_ref p)" using q(2) by blast
  also have "\<dots> = []" using assms(2) by (simp add: rollover_def new_array_def)
  finally have "tracked q = []" using q(1) n by (simp add: tracked_def)
  then show ?thesis using tracked_after_shape[OF q(3)] by simp
qed

lemma onCacheChange_distinct:
  assumes "wf_plugin p" and "distinct (tracked p)"
  shows "distinct (tracked (fst (snd (onCacheChange e file cache p))))"
proof (cases "lastTrackedDate (settings p) \<noteq> currentDate e")
  case True
  then show ?thesis using onCacheChange_rollover_tracked_empty[OF assms(1)] by simp
next
  case False
  then have r: "rollover e p = p" by (simp add: rollover_def)
  obtain q where q: "settings q = settings (rollover e p)"
      "distinct (arrays (rollover e p) (trackedFiles (settings p)))
          \<longrightarrow> distinct (arrays q (trackedFiles (settings p)))"
      "(\<exists>out. onCacheChange e file cache p = (out, q, []))
        \<or> onCacheChange e file cache p = updateTrackedFiles e q"
    using onCacheChange_arrays[of e p "file" cache] by blast
  have "distinct (tracked q)" using q(1,2) assms(2) by (simp add: r tracked_def)
  then show ?thesis using tracked_after_shape[OF q(3)] by simp
qed

lemma tracked_onVaultDelete:
  "tracked (fst (snd (onVaultDelete e (File f) p))) = removeAll (path f) (tracked p)"
proof (cases "path f \<in> set (tracked p)")
  case True
  have "tracked (remove_at (trackedFiles (settings p)) (path f) p) = removeAll (path f) (tracked p)"
    by (simp add: tracked_def remove_at_def array_remove_def)
  with True show ?thesis by (simp add: onVaultDelete_def)
next
  case False
  then show ?thesis by (simp add: onVaultDelete_def)
qed

lemma onVaultDelete_distinct:
  "distinct (tracked p) \<Longrightarrow> distinct (tracked (fst (snd (onVaultDelete e f p))))"
  by (cases f) (simp_all add: tracked_onVaultDelete distinct_removeAll, simp add: onVaultDelete_def)

lemma onVaultDelete_absent: "path f \<notin> set (tracked (fst (snd (onVaultDelete e (File f) p))))"
  by (simp add: tracked_onVaultDelete)

lemma distinct_array_remove: "distinct xs \<Longrightarrow> array_remove x xs = remove1 x xs"
  by (simp add: array_remove_def distinct_remove1_removeAll)

lemma wf_rollover: "wf_plugin p \<Longrightarrow> wf_plugin (rollover e p)"
  by (simp add: wf_plugin_def rollover_def new_array_def)

lemma wf_updateTrackedFiles: "wf_plugin p \<Longrightarrow> wf_plugin (fst (snd (updateTrackedFiles e p)))"
  by (simp add: updateTrackedFiles_plugin resolveDailyNote_plugin wf_plugin_def)

lemma wf_onCacheChange:
  assumes "wf_plugin p"
  shows "wf_plugin (fst (snd (onCacheChange e file cache p)))"
proof -
  obtain q where q: "settings q = settings (rollover e p)" "next_ref q = next_ref (rollover e p)"
      "(\<exists>out. onCacheChange e file cache p = (out, q, []))
        \<or> onCacheChange e file cache p = updateTrackedFiles e q"
    using onCacheChange_arrays[of e p "file" cache] by blast
  have w: "wf_plugin q" using wf_rollover[OF assms, of e] q(1,2) by (simp add: wf_plugin_def)
  from q(3) show ?thesis
  proof
    assume "\<exists>out. onCacheChange e file cache p = (out, q, [])"
    then show ?thesis using w by auto
  next
    assume "onCacheChange e file cache p = updateTrackedFiles e q"
    then show ?thesis using wf_updateTrackedFiles[OF w] by simp
  qed
qed

lemma wf_onVaultDelete: "wf_plugin p \<Longrightarrow> wf_plugin (fst (snd (onVaultDelete e f p)))"
proof (cases f)
  case (Folder x)
  assume "wf_plugin p"
  with Folder show ?thesis by (simp add: onVaultDelete_def)
next
  case (File tf)
  assume w: "wf_plugin p"
  then have "wf_plugin (remove_at (trackedFiles (settings p)) (path tf) p)"
    by (simp add: wf_plugin_def)
  from wf_updateTrackedFiles[OF this] w File show ?thesis by (simp add: onVaultDelete_def)
qed

text \<open>
  Along every run of events in which no file is renamed, the tracked files stay free of
  duplicates.
\<close>

lemma run_without_rename_distinct:
  assumes "wf_plugin p" and "distinct (tracked p)" and "list_all (\<lambda>ev. \<not> is_rename ev) evs"
  shows "wf_plugin (fst (run evs p)) \<and> distinct (tracked (fst (run evs p)))"
  using assms
proof (induction evs arbitrary: p)
  case Nil
  then show ?case by simp
next
  case (Cons ev evs)
  obtain out p1 fx where h: "handle ev p = (out, p1, fx)" by (cases "handle ev p") auto
  have "wf_plugin (fst (snd (handle ev p))) \<and> distinct (tracked (fst (snd (handle ev p))))"
  proof (cases ev)
    case (CacheChange e f c)
    then show ?thesis
      using wf_onCacheChange[OF Cons.prems(1)] onCacheChange_distinct[OF Cons.prems(1,2)] by simp
  next
    case (VaultDelete e f)
    then show ?thesis
      using wf_onVaultDelete[OF Cons.prems(1)] onVaultDelete_distinct[OF Cons.prems(2)] by simp
  next
    case (VaultRename e f old)
    with Cons.prems(3) show ?thesis by simp
  next
    case (Update e)
    then show ?thesis using wf_updateTrackedFiles[OF Cons.prems(1)] Cons.prems(2) by simp
  qed
  with h have p1: "wf_plugin p1" "distinct (tracked p1)" by simp_all
  have "list_all (\<lambda>ev. \<not> is_rename ev) evs" using Cons.prems(3) by simp
  from Cons.IH[OF p1 this] h show ?case by (cases "run evs p1") simp
qed

section \<open>The first change of a new day\<close>

text \<open>
  Claim C2 fails on the code. On a new day the settings get a new array, but the handler
  goes on with the array it read before: the path of the changed file is pushed onto the
  old array, and the tracked files of the settings stay empty although the file is
  trackable.
\<close>

theorem rollover_loses_changed_file:
  "lastTrackedDate (settings ((example_plugin [''Notes/Old.md''])
       \<lparr>settings := example_settings\<lparr>lastTrackedDate := ''2024-01-01''\<rparr>\<rparr>)) \<noteq> currentDate example_env
   \<and> shouldPush example_env example_settings note_A plain_cache [''Notes/Old.md''] = Inr True
   \<and> shouldRemove example_env example_settings note_A plain_cache [''Notes/Old.md'', ''Notes/A.md''] = Inr False
   \<and> tracked (fst (snd (onCacheChange example_env note_A plain_cache
        ((example_plugin [''Notes/Old.md''])
           \<lparr>settings := example_settings\<lparr>lastTrackedDate := ''2024-01-01''\<rparr>\<rparr>)))) = []
   \<and> arrays (fst (snd (onCacheChange example_env note_A plain_cache
        ((example_plugin [''Notes/Old.md''])
           \<lparr>settings := example_settings\<lparr>lastTrackedDate := ''2024-01-01''\<rparr>\<rparr>)))) 0 =
        [''Notes/Old.md'', ''Notes/A.md'']"
  by (simp add: onCacheChange_def vault_defs new_array_def
     rollover_def shouldPush_def shouldRemove_def cacheContainsIgnoredTag_def pathIsExcluded_def
     noteTitleContainsIgnoredText_def remove_spaces_def is_space_def toLowerCase_def lower_char_def
     js_includes_def match_separator_def strip_slashes_def
     push_at_def remove_at_def updateTrackedFiles_def resolveDailyNote_def writeList_def saveSettings_def
     tracked_def getFormattedOutput_def js_replace_def
     spliceEntries_def js_splice_def displayNotice_def Let_def array_remove_def)

section \<open>The write interval\<close>

lemma onload_invalid:
  "schema_parse (writeInterval (settings p)) = Inl err \<Longrightarrow>
   onload d p =
     [displayNotice (''Invalid write interval. Defaulting to '' @ d @ '' seconds.''),
      RegisterInterval (times_1000 (js_parseInt None d)),
      RegisterEvent ''changed'', RegisterEvent ''delete'', RegisterEvent ''rename'']"
  by (simp add: onload_def)

lemma schema_parse_zero: "schema_parse ''0'' = Inl ZodError"
  by (simp add: schema_parse_def js_parseInt_def is_space_def is_digit_in_def digit_of_def
        digits_value_def js_int_def)

text \<open>
  Claim C6 fails on the code for the value 0. The schema asks for a positive number, so 0
  is refused like any other invalid value: the notice is shown and the interval is
  registered with the default period. Nothing in \<^verbatim>\<open>onload\<close> leaves the interval out.
\<close>

theorem onload_zero_registers_default_interval:
  "onload d (p\<lparr>settings := (settings p)\<lparr>writeInterval := ''0''\<rparr>\<rparr>) =
     [displayNotice (''Invalid write interval. Defaulting to '' @ d @ '' seconds.''),
      RegisterInterval (times_1000 (js_parseInt None d)),
      RegisterEvent ''changed'', RegisterEvent ''delete'', RegisterEvent ''rename'']
   \<and> onload ''30'' (p\<lparr>settings := (settings p)\<lparr>writeInterval := ''0''\<rparr>\<rparr>) =
     [displayNotice ''Invalid write interval. Defaulting to 30 seconds.'',
      RegisterInterval (Num 30000),
      RegisterEvent ''changed'', RegisterEvent ''delete'', RegisterEvent ''rename'']"
  by (simp add: onload_def schema_parse_zero js_parseInt_def is_space_def is_digit_in_def
        digit_of_def digits_value_def js_int_def times_1000_def)

section \<open>Duplicates among the tracked files\<close>

text \<open>
  Claim C8 fails on the code. The rename handler pushes the new path without looking
  whether it is tracked already: from two distinct tracked paths, renaming the first to
  the second leaves the second path twice.
\<close>

theorem rename_onto_tracked_path_duplicates:
  "distinct (tracked (example_plugin [''Notes/A.md'', ''Notes/B.md'']))
   \<and> tracked (fst (run [VaultRename example_env (File (note_A\<lparr>path := ''Notes/B.md''\<rparr>)) ''Notes/A.md'']
        (example_plugin [''Notes/A.md'', ''Notes/B.md'']))) = [''Notes/B.md'', ''Notes/B.md'']
   \<and> \<not> distinct (tracked (fst (run
        [VaultRename example_env (File (note_A\<lparr>path := ''Notes/B.md''\<rparr>)) ''Notes/A.md'']
        (example_plugin [''Notes/A.md'', ''Notes/B.md'']))))"
  by (simp add: onVaultRename_def vault_defs tracked_def push_at_def remove_at_def array_remove_def
        js_includes_def saveSettings_def Let_def)

end
